theory Spec2Isabelle
  imports Complex_Main "HOL-Library.Sublist"
begin

section \<open>Common conventions\<close>

text \<open>
  Offsets and quarter lengths are exact numbers (the data model fixes offsets as
  rational numbers with exact equality), so they are values of type \<^typ>\<open>rat\<close>.
  Every exception the sources can raise is a value of \<open>error\<close>; a function that can
  raise returns \<open>error + 'a\<close> with \<open>Inl\<close> for the exception.
\<close>

datatype error =
    NonsensicalInputError
  | RuntimeError string
  | TypeError
  | IndexError
  | KeyError string
  | ZeroDivisionError
  | Music21Error

text \<open>Python's \<open>int(x)\<close> on a number: truncation towards zero.\<close>

definition py_int :: "rat \<Rightarrow> int" where
  "py_int x = (if 0 \<le> x then \<lfloor>x\<rfloor> else \<lceil>x\<rceil>)"

section \<open>analytic\_engine: filling the space between two offsets\<close>






section \<open>controllers/experimenter: the copy in LilyPondExperiment\<close>





section \<open>analytic\_engine: rounding to the counting interval\<close>

text \<open>
  \<open>round_to\<close>, the helper of \<open>vis_these_parts\<close>. The offsets the aligner hands it are
  music21 offsets, so the division is true division; a zero precision raises.
\<close>

definition round_to :: "rat \<Rightarrow> rat \<Rightarrow> error + rat" where
  "round_to n precision =
     (let correction = (if n \<ge> 0 then 1/2 else - (1/2))
      in if precision = 0 then Inl ZeroDivisionError
         else Inr (of_int (py_int (n / precision + correction)) * precision))"

section \<open>vis/analyzers/indexers/over\_bass: constructing the indexer\<close>

text \<open>
  The score is a data frame with two-level columns: the name of an indexer, and under it
  the labels of that indexer's columns (a voice such as \<open>''0''\<close>, or a pair of voices
  such as \<open>''0,1''\<close>). The constructor reads nothing else, so a score is the association
  list of the indexer names with their column labels. The settings are a dictionary with
  the optional keys \<open>type\<close> and \<open>horizontal\<close>; \<open>None\<close> is an absent key.
\<close>

type_synonym score = "(string \<times> string list) list"

record over_bass_settings =
  type_setting :: "string option"
  horizontal :: "int option"

record over_bass_indexer =
  settings_type :: string
  settings_horizontal :: int
  horiz_score :: "string list"
  horizontal_voice :: int
  vert_score :: "string list"

definition WRONG_HORIZ :: string where
  "WRONG_HORIZ = ''horizontal setting must be a voice present in the piece''"

definition WRONG_TYPE :: string where
  "WRONG_TYPE = ''Type given is not found''"

definition types :: "(string \<times> string) list" where
  "types = [(''intervals'', ''interval.HorizontalIntervalIndexer''),
            (''notes'', ''noterest.NoteRestIndexer'')]"

text \<open>
  \<open>OverBassIndexer.__init__\<close>. The first argument of the model is the score, the second
  the \<open>settings\<close> argument (\<open>None\<close> when the caller gives none). The base class
  constructor, called last, only stores the score.
\<close>

definition OverBassIndexer_init ::
  "score \<Rightarrow> over_bass_settings option \<Rightarrow> error + over_bass_indexer" where
  "OverBassIndexer_init score settings =
     (let ty = (case settings of
                  None \<Rightarrow> ''notes''
                | Some s \<Rightarrow> (case type_setting s of None \<Rightarrow> ''notes'' | Some t \<Rightarrow> t));
          horiz = (case settings of None \<Rightarrow> None | Some s \<Rightarrow> horizontal s)
      in case map_of types ty of
           None \<Rightarrow> Inl (RuntimeError WRONG_TYPE)
         | Some indexer_name \<Rightarrow>
            (case map_of score indexer_name of
               None \<Rightarrow> Inl (RuntimeError WRONG_TYPE)
             | Some columns \<Rightarrow>
                (case (case horiz of
                         None \<Rightarrow> Inr (int (length columns) - 1)
                       | Some h \<Rightarrow>
                           if h > int (length columns) - 1 then Inl (RuntimeError WRONG_HORIZ)
                           else Inr h) of
                   Inl e \<Rightarrow> Inl e
                 | Inr h \<Rightarrow>
                    (case map_of score ''interval.IntervalIndexer'' of
                       None \<Rightarrow> Inl (KeyError ''interval.IntervalIndexer'')
                     | Some vert \<Rightarrow>
                         Inr \<lparr>settings_type = ty, settings_horizontal = h,
                              horiz_score = columns, horizontal_voice = h,
                              vert_score = vert\<rparr>))))"

text \<open>
  The voices of the piece are the columns of the horizontal score, labelled
  \<open>''0''\<close>, \<open>''1''\<close>, ... from the highest voice down; \<open>run\<close> looks the bass voice up
  under the label \<open>str(horizontal_voice)\<close>. A setting denotes a voice present in the
  piece when it is the index of one of these columns.
\<close>

definition voice_present :: "string list \<Rightarrow> int \<Rightarrow> bool" where
  "voice_present columns v \<longleftrightarrow> 0 \<le> v \<and> v < int (length columns)"

section \<open>intsec: the string version of an n-gram\<close>

text \<open>
  \<open>NGram.stringVersion\<close> reads three attributes of a music21 interval: its \<open>name\<close>,
  its \<open>semiSimpleName\<close> and its \<open>direction\<close>. An \<open>NGram\<close> holds the list of its
  vertical intervals and the list of the movements of the lower voice between them.
\<close>

record m21_interval =
  name :: string
  semiSimpleName :: string
  direction :: int

record NGram =
  heedQuality :: bool
  listOfIntervals :: "m21_interval list"
  listOfMovements :: "m21_interval list"

text \<open>The name of an interval in the requested size, or the exception of the source.\<close>

definition sized_name :: "string \<Rightarrow> m21_interval \<Rightarrow> error + string" where
  "sized_name simpleOrCompound iv =
     (if simpleOrCompound = ''simple'' then Inr (semiSimpleName iv)
      else if simpleOrCompound = ''compound'' then Inr (name iv)
      else Inl NonsensicalInputError)"

text \<open>
  One round of the loop over the indices of the vertical intervals: \<open>post\<close> is the
  string built so far. \<open>thisInt[1:]\<close> drops the quality letter. The movement at the
  same index is appended when there is one (the last interval has none: the
  \<open>IndexError\<close> is caught).
\<close>

definition stringVersion_step ::
  "NGram \<Rightarrow> string \<Rightarrow> bool \<Rightarrow> nat \<Rightarrow> string \<Rightarrow> error + string" where
  "stringVersion_step ng simpleOrCompound heed i post =
     (let post1 = (if length post > 0 then post @ '' '' else post)
      in case sized_name simpleOrCompound (listOfIntervals ng ! i) of
           Inl e \<Rightarrow> Inl e
         | Inr thisInt0 \<Rightarrow>
            (let thisInt = (if \<not> heed then drop 1 thisInt0 else thisInt0);
                 post2 = post1 @ thisInt
             in if i < length (listOfMovements ng) then
                  (let thisMove = listOfMovements ng ! i;
                       post3 = (if direction thisMove = 1 then post2 @ '' +''
                                else if direction thisMove = - 1 then post2 @ '' -''
                                else post2 @ '' '')
                   in case sized_name simpleOrCompound thisMove of
                        Inl e \<Rightarrow> Inl e
                      | Inr zzz0 \<Rightarrow>
                          (let zzz = (if \<not> heed then drop 1 zzz0 else zzz0)
                           in Inr (post3 @ zzz)))
                else Inr post2))"

fun stringVersion_loop ::
  "NGram \<Rightarrow> string \<Rightarrow> bool \<Rightarrow> nat list \<Rightarrow> string \<Rightarrow> error + string" where
  "stringVersion_loop ng simpleOrCompound heed [] post = Inr post"
| "stringVersion_loop ng simpleOrCompound heed (i # is) post =
     (case stringVersion_step ng simpleOrCompound heed i post of
        Inl e \<Rightarrow> Inl e
      | Inr post' \<Rightarrow> stringVersion_loop ng simpleOrCompound heed is post')"

definition stringVersion :: "NGram \<Rightarrow> string \<Rightarrow> bool option \<Rightarrow> error + string" where
  "stringVersion ng simpleOrCompound heedQuality_arg =
     (let heed = (case heedQuality_arg of None \<Rightarrow> heedQuality ng | Some h \<Rightarrow> h)
      in stringVersion_loop ng simpleOrCompound heed [0..<length (listOfIntervals ng)] [])"

text \<open>\<open>__str__\<close>: the string version with the default arguments.\<close>

definition str_NGram :: "NGram \<Rightarrow> error + string" where
  "str_NGram ng = stringVersion ng ''compound'' None"

text \<open>Python's \<open>s.split(' ')\<close> and \<open>' '.join(pieces)\<close>.\<close>

fun split_space :: "string \<Rightarrow> string list" where
  "split_space [] = [[]]"
| "split_space (c # cs) =
     (if c = CHR '' '' then [] # split_space cs
      else (case split_space cs of [] \<Rightarrow> [[c]] | p # ps \<Rightarrow> (c # p) # ps))"

fun join_space :: "string list \<Rightarrow> string" where
  "join_space [] = []"
| "join_space [p] = p"
| "join_space (p # q # ps) = p @ CHR '' '' # join_space (q # ps)"

text \<open>A leading space, a trailing space, two spaces in a row.\<close>

definition leading_space :: "string \<Rightarrow> bool" where
  "leading_space s = (case s of [] \<Rightarrow> False | c # _ \<Rightarrow> c = CHR '' '')"

definition trailing_space :: "string \<Rightarrow> bool" where
  "trailing_space s = leading_space (rev s)"

fun consecutive_spaces :: "string \<Rightarrow> bool" where
  "consecutive_spaces (a # b # r) = ((a = CHR '' '' \<and> b = CHR '' '') \<or> consecutive_spaces (b # r))"
| "consecutive_spaces _ = False"

text \<open>
  The names music21 gives an interval are a quality and a number, such as \<open>M3\<close>,
  \<open>P12\<close> or \<open>AA4\<close>: at least two characters, none of them a space.
\<close>

definition interval_name_ok :: "string \<Rightarrow> bool" where
  "interval_name_ok s \<longleftrightarrow> 2 \<le> length s \<and> CHR '' '' \<notin> set s"

definition ngram_names_ok :: "NGram \<Rightarrow> bool" where
  "ngram_names_ok ng \<longleftrightarrow>
     list_all (\<lambda>iv. interval_name_ok (name iv)) (listOfIntervals ng) \<and>
     list_all (\<lambda>iv. interval_name_ok (name iv)) (listOfMovements ng)"

text \<open>A word: a non-empty string without a space.\<close>

definition word :: "string \<Rightarrow> bool" where
  "word w \<longleftrightarrow> w \<noteq> [] \<and> CHR '' '' \<notin> set w"

section \<open>Notes, rests and intervals\<close>

text \<open>
  What the two legacy aligners read of a music21 element: its offset, its quarter length,
  whether it is a rest, and the pitch of a note. A pitch is its diatonic note number and
  its pitch-space (semitone) number, which together fix the name with octave. An
  interval is made of a lower and a higher note; music21 compares two intervals by their
  diatonic and chromatic sizes, not by their notes.
\<close>

record pitch =
  diatonicNoteNum :: int
  midi :: int

datatype sound = Note pitch | Rest

record element =
  offset :: rat
  quarterLength :: rat
  sound :: sound

definition is_rest :: "element \<Rightarrow> bool" where
  "is_rest thing \<longleftrightarrow> sound thing = Rest"

definition pitch_of :: "element \<Rightarrow> pitch option" where
  "pitch_of e = (case sound e of Note p \<Rightarrow> Some p | Rest \<Rightarrow> None)"

definition nameWithOctave :: "element \<Rightarrow> pitch option" where
  "nameWithOctave e = pitch_of e"

section \<open>intsec: the two-voice aligner visTheseParts\<close>

text \<open>
  The arguments of the model are \<open>hfn\<close> and \<open>lfn\<close>, the notes of the flattened higher and
  lower part in the order of the stream. \<open>getElementsByOffset\<close> gives the elements that
  start at an offset, \<open>highestOffset\<close> the largest offset of a stream (zero when empty).
\<close>

definition getElementsByOffset :: "element list \<Rightarrow> rat \<Rightarrow> element list" where
  "getElementsByOffset stream t = filter (\<lambda>e. offset e = t) stream"

fun highestOffset :: "element list \<Rightarrow> rat" where
  "highestOffset [] = 0"
| "highestOffset (e # es) = (if es = [] then offset e else max (offset e) (highestOffset es))"

text \<open>
  The statistics object is the log of the calls made on it: a row
  \<open>(thisOffset, low, high)\<close> for each \<open>addInterval(Interval(low, high))\<close>, and the two
  intervals of each \<open>addNGram\<close>.
\<close>

type_synonym row = "rat \<times> element \<times> element"

record intsec_state =
  mostRecentHigh :: "element option"
  mostRecentLow :: "element option"
  previousHighs :: "element list"
  previousLows :: "element list"
  rows :: "row list"
  ngrams :: "((element \<times> element) \<times> (element \<times> element)) list"

text \<open>
  The update of one voice at \<open>thisOffset\<close>: the note that starts there replaces the
  most recent one unless it has the same pitch. The result is the most recent note, the
  list of previous notes, and whether the voice was updated.
\<close>

definition update_voice ::
  "element list \<Rightarrow> rat \<Rightarrow> element option \<Rightarrow> element list
     \<Rightarrow> element option \<times> element list \<times> bool" where
  "update_voice fn thisOffset mostRecent previous =
     (if length (getElementsByOffset fn thisOffset) > 0 then
        (let gebo = hd (getElementsByOffset fn thisOffset)
         in if mostRecent = None \<or> pitch_of gebo \<noteq> pitch_of (the mostRecent) then
              (Some gebo,
               (case mostRecent of None \<Rightarrow> previous | Some m \<Rightarrow> previous @ [m]),
               True)
            else (mostRecent, previous, False))
      else (mostRecent, previous, False))"

text \<open>
  One round of the loop. A voice that was not updated while the other was appends its
  most recent note to its previous notes. When a voice was updated, the interval of the
  two most recent notes is counted; music21 cannot make the interval when a voice has
  had no note yet. The 2-gram is counted when both voices have a previous note.
\<close>

definition visTheseParts_body ::
  "element list \<Rightarrow> element list \<Rightarrow> rat \<Rightarrow> intsec_state \<Rightarrow> error + intsec_state" where
  "visTheseParts_body hfn lfn thisOffset s =
     (let (low1, prevLows1, lowUpdated) =
            update_voice lfn thisOffset (mostRecentLow s) (previousLows s);
          (high1, prevHighs1, highUpdated) =
            update_voice hfn thisOffset (mostRecentHigh s) (previousHighs s);
          highMustUpdate = lowUpdated;
          lowMustUpdate = highUpdated;
          prevLows2 = (if lowMustUpdate \<and> \<not> lowUpdated
                       then (case low1 of None \<Rightarrow> prevLows1 | Some m \<Rightarrow> prevLows1 @ [m])
                       else prevLows1);
          prevHighs2 = (if highMustUpdate \<and> \<not> highUpdated
                        then (case high1 of None \<Rightarrow> prevHighs1 | Some m \<Rightarrow> prevHighs1 @ [m])
                        else prevHighs1);
          s1 = s\<lparr>mostRecentHigh := high1, mostRecentLow := low1,
                 previousHighs := prevHighs2, previousLows := prevLows2\<rparr>
      in if lowUpdated \<or> highUpdated then
           (case (low1, high1) of
              (Some lo, Some hi) \<Rightarrow>
                Inr (s1\<lparr>rows := rows s @ [(thisOffset, lo, hi)],
                        ngrams := (if length prevLows2 \<ge> 1 \<and> length prevHighs2 \<ge> 1
                                   then ngrams s @ [((last prevLows2, last prevHighs2), (lo, hi))]
                                   else ngrams s)\<rparr>)
            | _ \<Rightarrow> Inl Music21Error)
         else Inr s1)"

text \<open>The loop: \<open>thisOffset\<close> grows by the fixed \<open>offsetInterval\<close> of one half.\<close>

function visTheseParts_loop ::
  "element list \<Rightarrow> element list \<Rightarrow> rat \<Rightarrow> rat \<Rightarrow> intsec_state \<Rightarrow> error + intsec_state" where
  "visTheseParts_loop hfn lfn highest thisOffset s =
     (if thisOffset \<le> highest then
        (case visTheseParts_body hfn lfn thisOffset s of
           Inl e \<Rightarrow> Inl e
         | Inr s' \<Rightarrow> visTheseParts_loop hfn lfn highest (thisOffset + 1/2) s')
      else Inr s)"
  by pat_completeness auto
termination
proof (relation "measure (\<lambda>(hfn, lfn, highest, thisOffset, s). nat (\<lfloor>(highest - thisOffset) * 2\<rfloor> + 1))")
  show "wf (measure (\<lambda>(hfn, lfn, highest, thisOffset, s). nat (\<lfloor>(highest - thisOffset) * 2\<rfloor> + 1)))"
    by simp
next
  fix hfn lfn :: "element list" and highest thisOffset :: rat and s s' :: intsec_state
  assume le: "thisOffset \<le> highest"
  have eq: "(highest - (thisOffset + 1/2)) * 2 = (highest - thisOffset) * 2 - 1"
    by (simp add: algebra_simps)
  have "0 \<le> \<lfloor>(highest - thisOffset) * 2\<rfloor>" using le by simp
  moreover have "\<lfloor>(highest - (thisOffset + 1/2)) * 2\<rfloor> = \<lfloor>(highest - thisOffset) * 2\<rfloor> - 1"
    unfolding eq by simp
  ultimately show "((hfn, lfn, highest, thisOffset + 1/2, s'), (hfn, lfn, highest, thisOffset, s))
      \<in> measure (\<lambda>(hfn, lfn, highest, thisOffset, s). nat (\<lfloor>(highest - thisOffset) * 2\<rfloor> + 1))"
    by simp
qed

declare visTheseParts_loop.simps [simp del]

definition visTheseParts :: "element list \<Rightarrow> element list \<Rightarrow> error + intsec_state" where
  "visTheseParts hfn lfn =
     visTheseParts_loop hfn lfn (max (highestOffset hfn) (highestOffset lfn)) 0
       \<lparr>mostRecentHigh = None, mostRecentLow = None, previousHighs = [], previousLows = [],
        rows = [], ngrams = []\<rparr>"

text \<open>The rows of a run, when it returns.\<close>

definition result_rows :: "error + intsec_state \<Rightarrow> row list option" where
  "result_rows r = (case r of Inl e \<Rightarrow> None | Inr s \<Rightarrow> Some (rows s))"

text \<open>
  The offsets of a voice; the offsets the loop visits (the non-negative multiples of one
  half); a voice as a time series on these offsets: strictly increasing offsets, and no
  two consecutive notes of the same pitch.
\<close>

definition offsets_of :: "element list \<Rightarrow> rat set" where
  "offsets_of stream = set (map offset stream)"

definition on_grid :: "rat \<Rightarrow> bool" where
  "on_grid t \<longleftrightarrow> 0 \<le> t \<and> t * 2 = of_int \<lfloor>t * 2\<rfloor>"

definition grid_series :: "element list \<Rightarrow> bool" where
  "grid_series stream \<longleftrightarrow>
     sorted_wrt (<) (map offset stream) \<and>
     distinct_adj (map pitch_of stream) \<and>
     list_all (\<lambda>e. on_grid (offset e)) stream"

text \<open>
  The last note of a voice before an offset, and the pair of pitches of a row (the
  combination the row reports).
\<close>

definition last_before :: "element list \<Rightarrow> rat \<Rightarrow> element option" where
  "last_before stream t =
     (case filter (\<lambda>e. offset e < t) stream of [] \<Rightarrow> None | y # ys \<Rightarrow> Some (last (y # ys)))"

definition row_offset :: "row \<Rightarrow> rat" where
  "row_offset r = fst r"

definition row_pitches :: "row \<Rightarrow> pitch option \<times> pitch option" where
  "row_pitches r = (pitch_of (fst (snd r)), pitch_of (snd (snd r)))"

text \<open>
  What holds of the rows before each round, for any two voices: every row lies at an
  offset of the grid before \<open>thisOffset\<close> at which a voice has a note, the rows are in
  the order of their offsets, no two rows in a row report the same pair of pitches, and
  the last row holds the most recent notes.
\<close>

definition rows_inv :: "element list \<Rightarrow> element list \<Rightarrow> rat \<Rightarrow> intsec_state \<Rightarrow> bool" where
  "rows_inv hfn lfn t s \<longleftrightarrow>
     on_grid t \<and>
     (\<forall>r \<in> set (rows s). row_offset r < t \<and> on_grid (row_offset r) \<and>
                        row_offset r \<in> offsets_of hfn \<union> offsets_of lfn) \<and>
     sorted_wrt (<) (map row_offset (rows s)) \<and>
     distinct_adj (map row_pitches (rows s)) \<and>
     (rows s \<noteq> [] \<longrightarrow> mostRecentLow s = Some (fst (snd (last (rows s)))) \<and>
                      mostRecentHigh s = Some (snd (snd (last (rows s)))))"

text \<open>
  What holds in addition when both voices are time series on the grid: the most recent
  note of a voice is its last note before \<open>thisOffset\<close>, and the rows are at exactly the
  offsets before \<open>thisOffset\<close> at which a voice has a note.
\<close>

definition series_inv :: "element list \<Rightarrow> element list \<Rightarrow> rat \<Rightarrow> intsec_state \<Rightarrow> bool" where
  "series_inv hfn lfn t s \<longleftrightarrow>
     on_grid t \<and>
     mostRecentLow s = last_before lfn t \<and>
     mostRecentHigh s = last_before hfn t \<and>
     set (map row_offset (rows s)) = {x \<in> offsets_of hfn \<union> offsets_of lfn. x < t}"

section \<open>analytic\_engine: the two-voice aligner vis\_these\_parts\<close>

text \<open>Python's indexing of a list: a negative index counts from the end.\<close>

definition py_get :: "'a list \<Rightarrow> int \<Rightarrow> error + 'a" where
  "py_get xs i =
     (let len = int (length xs); j = (if i < 0 then len + i else i)
      in if 0 \<le> j \<and> j < len then Inr (xs ! nat j) else Inl IndexError)"

text \<open>
  An interval from a lower to a higher element, with the offset the aligner gives it.
  Its size is the pair of the diatonic and the chromatic distance of the two notes, and
  \<open>==\<close> on intervals compares the sizes. A moment of the interval history is such an
  interval or the string \<open>'rest'\<close>.
\<close>

record interval =
  noteStart :: element
  noteEnd :: element
  interval_offset :: rat

datatype moment = RestMoment | IntervalMoment interval

definition interval_size :: "interval \<Rightarrow> (int \<times> int) option" where
  "interval_size iv =
     (case (pitch_of (noteStart iv), pitch_of (noteEnd iv)) of
        (Some p, Some q) \<Rightarrow> Some (diatonicNoteNum q - diatonicNoteNum p, midi q - midi p)
      | _ \<Rightarrow> None)"

definition interval_eq :: "interval \<Rightarrow> moment \<Rightarrow> bool" where
  "interval_eq this_interval other =
     (case other of RestMoment \<Rightarrow> False
                  | IntervalMoment iv \<Rightarrow> interval_size this_interval = interval_size iv)"

text \<open>
  The state of the run besides the two indices: the offset of the most recently added
  interval (\<open>None\<close> at the start), the history of the recorded moments, and the log of
  the calls \<open>add_interval\<close> and \<open>add_ngram\<close> on the statistics object.
\<close>

record engine_state =
  current_offset :: "rat option"
  interval_history :: "moment list"
  added_intervals :: "interval list"
  added_ngrams :: "moment list list"

text \<open>
  The first part of a round (lines 264 to 343): an index past the end of its part steps
  back by one, and when the two current elements start at different offsets, the part
  whose element starts later steps back by one more, with the cases for the last
  element of a part.
\<close>

definition adjust_indices ::
  "element list \<Rightarrow> element list \<Rightarrow> int \<Rightarrow> int \<Rightarrow> error + (int \<times> int)" where
  "adjust_indices lower_part higher_part current_lower_index current_higher_index =
     (let len_lower = int (length lower_part);
          len_higher = int (length higher_part);
          l = (if current_lower_index \<ge> len_lower then current_lower_index - 1
               else current_lower_index);
          h = (if current_higher_index \<ge> len_higher then current_higher_index - 1
               else current_higher_index)
      in case py_get lower_part l of
           Inl e \<Rightarrow> Inl e
         | Inr lo \<Rightarrow>
            (case py_get higher_part h of
               Inl e \<Rightarrow> Inl e
             | Inr hi \<Rightarrow>
                 if offset lo \<noteq> offset hi then
                   (if l = len_lower - 1 \<and> h = len_higher - 1 then Inr (l, h)
                    else if h = len_higher - 1 then
                      (if offset hi > offset lo then Inr (l, h - 1) else Inr (l, h))
                    else if l = len_lower - 1 then
                      (if offset lo > offset hi then Inr (l - 1, h) else Inr (l, h))
                    else
                      (if offset hi > offset lo then Inr (l, h - 1) else Inr (l - 1, h)))
                 else Inr (l, h)))"

text \<open>
  The inner loop (lines 389 to 397): count up from the potential new offset by the
  offset interval until the greater offset is hit or passed. With an interval that is
  not positive the loop may never end: the result \<open>None\<close> is a run that does not return.
\<close>

partial_function (option) count_up :: "rat \<Rightarrow> rat \<Rightarrow> rat \<Rightarrow> (bool \<times> rat) option" where
  "count_up potential_new_offset offset_interval greater_offset =
     (if potential_new_offset \<le> greater_offset then
        (if potential_new_offset = greater_offset then Some (True, potential_new_offset)
         else count_up (potential_new_offset + offset_interval) offset_interval greater_offset)
      else Some (False, potential_new_offset))"

declare count_up.simps [code]

text \<open>The offset to start counting from (lines 365 to 374).\<close>

definition starting_offset ::
  "element list \<Rightarrow> element list \<Rightarrow> rat \<Rightarrow> rat option \<Rightarrow> error + rat" where
  "starting_offset lower_part higher_part offset_interval cur =
     (case cur of
        None \<Rightarrow>
          (case py_get higher_part 0 of
             Inl e \<Rightarrow> Inl e
           | Inr h0 \<Rightarrow>
              (case py_get lower_part 0 of
                 Inl e \<Rightarrow> Inl e
               | Inr l0 \<Rightarrow> Inr (min (offset h0) (offset l0))))
      | Some c \<Rightarrow>
          (case round_to c offset_interval of
             Inl e \<Rightarrow> Inl e
           | Inr potential_new_offset \<Rightarrow>
               Inr (if potential_new_offset > c then potential_new_offset - offset_interval
                    else potential_new_offset)))"

text \<open>
  Whether the current combination lasts past the next offset to measure (lines 402 to
  445), asked when the current offset is not itself one to measure.
\<close>

definition continues_past ::
  "element list \<Rightarrow> element list \<Rightarrow> int \<Rightarrow> int \<Rightarrow> element \<Rightarrow> element \<Rightarrow> rat \<Rightarrow> error + bool" where
  "continues_past lower_part higher_part l h lo hi potential_new_offset =
     (if h = int (length higher_part) - 1 \<or> l = int (length lower_part) - 1 then
        (let end_of_higher = offset hi + quarterLength hi;
             end_of_lower = offset lo + quarterLength lo
         in Inr (end_of_lower > potential_new_offset \<and> end_of_higher > potential_new_offset))
      else
        (case py_get higher_part (h + 1) of
           Inl e \<Rightarrow> Inl e
         | Inr next_higher \<Rightarrow>
             if offset next_higher > potential_new_offset then
               (case py_get lower_part (l + 1) of
                  Inl e \<Rightarrow> Inl e
                | Inr next_lower \<Rightarrow> Inr (offset next_lower > potential_new_offset))
             else Inr False))"

text \<open>
  The n-gram of one \<open>n\<close> (lines 513 to 555): nothing when the history is shorter than
  \<open>n\<close>; otherwise the last \<open>n\<close> moments are collected in order, and the search is given
  up at the first moment that is \<open>'rest'\<close>.
\<close>

fun collect_moments :: "moment list \<Rightarrow> moment list \<Rightarrow> moment list option" where
  "collect_moments [] list_of_intervals = Some list_of_intervals"
| "collect_moments (previous_thing # later) list_of_intervals =
     (if previous_thing = RestMoment then None
      else collect_moments later (list_of_intervals @ [previous_thing]))"

definition ngram_for :: "moment list \<Rightarrow> int \<Rightarrow> moment list option" where
  "ngram_for history n =
     (if int (length history) < n then None
      else collect_moments (if n \<le> 0 then [] else drop (length history - nat n) history) [])"

fun add_ngrams :: "moment list \<Rightarrow> int list \<Rightarrow> moment list list \<Rightarrow> moment list list" where
  "add_ngrams history [] added = added"
| "add_ngrams history (n # find_these_ns) added =
     add_ngrams history find_these_ns
       (case ngram_for history n of None \<Rightarrow> added | Some this_ngram \<Rightarrow> added @ [this_ngram])"

text \<open>
  The test of lines 475 to 480: the interval equals the last moment of the history, and
  starts on a note of the same name as that moment does.
\<close>

definition repeats_last :: "moment list \<Rightarrow> interval \<Rightarrow> bool" where
  "repeats_last history this_interval \<longleftrightarrow>
     0 < length history
     \<and> interval_eq this_interval (last history)
     \<and> (case last history of
           RestMoment \<Rightarrow> False
         | IntervalMoment previous \<Rightarrow>
             nameWithOctave (noteStart this_interval) = nameWithOctave (noteStart previous))"

text \<open>
  Recording the moment (lines 449 to 556), once it is known to count: a rest in either
  part is recorded as \<open>'rest'\<close> and nothing more is done; otherwise the interval of the
  two notes is recorded unless it repeats the last moment, and the n-grams that end
  with it are added.
\<close>

definition record_moment :: "int list \<Rightarrow> element \<Rightarrow> element \<Rightarrow> engine_state \<Rightarrow> engine_state" where
  "record_moment find_these_ns lo hi st =
     (if is_rest hi \<or> is_rest lo then
        st\<lparr>interval_history := interval_history st @ [RestMoment]\<rparr>
      else
        (let this_interval = \<lparr>noteStart = lo, noteEnd = hi,
                               interval_offset = max (offset lo) (offset hi)\<rparr>
         in if repeats_last (interval_history st) this_interval then st
            else
              (let history = interval_history st @ [IntervalMoment this_interval]
               in st\<lparr>current_offset := Some (max (offset hi) (offset lo)),
                      interval_history := history,
                      added_intervals := added_intervals st @ [this_interval],
                      added_ngrams := add_ngrams history find_these_ns (added_ngrams st)\<rparr>)))"

text \<open>
  The second part of a round (lines 355 to 556), at the adjusted indices, in the order
  in which the source reads the parts.
\<close>

definition process_moment ::
  "element list \<Rightarrow> element list \<Rightarrow> rat \<Rightarrow> int list \<Rightarrow> int \<Rightarrow> int \<Rightarrow> engine_state
     \<Rightarrow> (error + engine_state) option" where
  "process_moment lower_part higher_part offset_interval find_these_ns l h st =
     (case starting_offset lower_part higher_part offset_interval (current_offset st) of
        Inl e \<Rightarrow> Some (Inl e)
      | Inr start \<Rightarrow>
         (case py_get higher_part h of
            Inl e \<Rightarrow> Some (Inl e)
          | Inr hi \<Rightarrow>
             (case py_get lower_part l of
                Inl e \<Rightarrow> Some (Inl e)
              | Inr lo \<Rightarrow>
                 (case count_up start offset_interval (max (offset hi) (offset lo)) of
                    None \<Rightarrow> None
                  | Some (hit, potential_new_offset) \<Rightarrow>
                     (case (if hit then Inr True
                            else continues_past lower_part higher_part l h lo hi
                                   potential_new_offset) of
                        Inl e \<Rightarrow> Some (Inl e)
                      | Inr contin \<Rightarrow>
                          Some (Inr (if contin then record_moment find_these_ns lo hi st
                                     else st)))))))"

text \<open>
  The loop ends: twice the distance of the two indices from the ends of their parts,
  plus one when an index is past the end, goes down in every round.
\<close>

definition loop_measure :: "element list \<Rightarrow> element list \<Rightarrow> int \<Rightarrow> int \<Rightarrow> nat" where
  "loop_measure lower_part higher_part l h =
     nat (2 * ((int (length lower_part) - l) + (int (length higher_part) - h))
          + (if l \<ge> int (length lower_part) \<or> h \<ge> int (length higher_part) then 1 else 0))"

lemma py_get_range: "py_get xs i = Inr x \<Longrightarrow> - int (length xs) \<le> i \<and> i < int (length xs)"
  by (auto simp: py_get_def Let_def split: if_splits)

lemma adjust_indices_measure:
  assumes c: "l < int (length lower_part) \<or> h < int (length higher_part)"
    and a: "adjust_indices lower_part higher_part l h = Inr (l2, h2)"
  shows "loop_measure lower_part higher_part (l2 + 1) (h2 + 1) < loop_measure lower_part higher_part l h"
proof -
  define l1 where "l1 = (if l \<ge> int (length lower_part) then l - 1 else l)"
  define h1 where "h1 = (if h \<ge> int (length higher_part) then h - 1 else h)"
  from a obtain lo hi where lo: "py_get lower_part l1 = Inr lo" and hi: "py_get higher_part h1 = Inr hi"
    by (auto simp: adjust_indices_def Let_def l1_def h1_def split: sum.splits)
  from py_get_range [OF lo] py_get_range [OF hi]
  have r: "l1 < int (length lower_part)" "h1 < int (length higher_part)" by auto
  from a lo hi have cases:
    "(l2 = l1 \<and> h2 = h1) \<or>
     (l2 = l1 \<and> h2 = h1 - 1 \<and> l1 \<noteq> int (length lower_part) - 1) \<or>
     (l2 = l1 - 1 \<and> h2 = h1 \<and> h1 \<noteq> int (length higher_part) - 1)"
    unfolding adjust_indices_def Let_def l1_def [symmetric] h1_def [symmetric]
    by (auto split: if_splits)
  show ?thesis
    using c r cases unfolding loop_measure_def l1_def h1_def
    by (auto split: if_splits)
qed

text \<open>The loop of \<open>vis_these_parts\<close> (line 257), with the two indices and the state.\<close>

function vis_these_parts_loop ::
  "element list \<Rightarrow> element list \<Rightarrow> rat \<Rightarrow> int list \<Rightarrow> int \<Rightarrow> int \<Rightarrow> engine_state
     \<Rightarrow> (error + engine_state) option" where
  "vis_these_parts_loop lower_part higher_part offset_interval find_these_ns
       current_lower_index current_higher_index st =
     (if current_lower_index < int (length lower_part)
         \<or> current_higher_index < int (length higher_part) then
        (case adjust_indices lower_part higher_part current_lower_index current_higher_index of
           Inl e \<Rightarrow> Some (Inl e)
         | Inr (l, h) \<Rightarrow>
            (case process_moment lower_part higher_part offset_interval find_these_ns l h st of
               None \<Rightarrow> None
             | Some (Inl e) \<Rightarrow> Some (Inl e)
             | Some (Inr st') \<Rightarrow>
                 vis_these_parts_loop lower_part higher_part offset_interval find_these_ns
                   (l + 1) (h + 1) st'))
      else Some (Inr st))"
  by pat_completeness auto
termination
proof (relation "measure (\<lambda>(lower_part, higher_part, offset_interval, find_these_ns, l, h, st).
                            loop_measure lower_part higher_part l h)")
  show "wf (measure (\<lambda>(lower_part, higher_part, offset_interval, find_these_ns, l, h, st).
                            loop_measure lower_part higher_part l h))"
    by simp
next
  fix lower_part higher_part :: "element list" and offset_interval :: rat
    and find_these_ns :: "int list" and current_lower_index current_higher_index :: int
    and st :: engine_state and x2 :: "int \<times> int" and x y :: int
    and x2a :: "error + engine_state" and x2b :: engine_state
  assume "current_lower_index < int (length lower_part)
            \<or> current_higher_index < int (length higher_part)"
    and "adjust_indices lower_part higher_part current_lower_index current_higher_index = Inr x2"
    and "(x, y) = x2"
  then have "loop_measure lower_part higher_part (x + 1) (y + 1)
               < loop_measure lower_part higher_part current_lower_index current_higher_index"
    by (intro adjust_indices_measure) auto
  then show "((lower_part, higher_part, offset_interval, find_these_ns, x + 1, y + 1, x2b),
              (lower_part, higher_part, offset_interval, find_these_ns,
               current_lower_index, current_higher_index, st))
             \<in> measure (\<lambda>(lower_part, higher_part, offset_interval, find_these_ns, l, h, st).
                            loop_measure lower_part higher_part l h)"
    by simp
qed

declare vis_these_parts_loop.simps [simp del]

text \<open>
  \<open>vis_these_parts\<close>: the arguments of the model are the notes and rests of the flattened
  higher and lower part, the setting \<open>offsetBetweenInterval\<close> and the setting
  \<open>lookForTheseNs\<close>. The result is the state at the end, with the log of the statistics.
\<close>

definition vis_these_parts ::
  "element list \<Rightarrow> element list \<Rightarrow> rat \<Rightarrow> int list \<Rightarrow> (error + engine_state) option" where
  "vis_these_parts higher_part lower_part offset_interval find_these_ns =
     vis_these_parts_loop lower_part higher_part offset_interval find_these_ns 0 0
       \<lparr>current_offset = None, interval_history = [], added_intervals = [], added_ngrams = []\<rparr>"

text \<open>
  Two moments are the same combination when both are intervals of the same size on
  lower notes of the same name: what the aligner refuses to record twice in a row.
  The vertical tokens of a run are the sizes of the intervals it added.
\<close>

definition same_combination :: "moment \<Rightarrow> moment \<Rightarrow> bool" where
  "same_combination a b =
     (case (a, b) of
        (IntervalMoment x, IntervalMoment y) \<Rightarrow>
          interval_size x = interval_size y
          \<and> nameWithOctave (noteStart x) = nameWithOctave (noteStart y)
      | _ \<Rightarrow> False)"

definition vertical_tokens :: "engine_state \<Rightarrow> (int \<times> int) option list" where
  "vertical_tokens st = map interval_size (added_intervals st)"

definition engine_inv :: "engine_state \<Rightarrow> bool" where
  "engine_inv st \<longleftrightarrow>
     successively (\<lambda>a b. \<not> same_combination a b) (interval_history st) \<and>
     (\<forall>g \<in> set (added_ngrams st). RestMoment \<notin> set g \<and> sublist g (interval_history st))"

text \<open>Elements for the examples: a note or a rest of one quarter length at an offset.\<close>

definition note_at :: "rat \<Rightarrow> int \<Rightarrow> int \<Rightarrow> element" where
  "note_at t d m = \<lparr>offset = t, quarterLength = 1,
                    sound = Note \<lparr>diatonicNoteNum = d, midi = m\<rparr>\<rparr>"


text \<open>The interval the aligner makes of a lower and a higher element.\<close>

definition interval_between :: "element \<Rightarrow> element \<Rightarrow> interval" where
  "interval_between lo hi =
     \<lparr>noteStart = lo, noteEnd = hi, interval_offset = max (offset lo) (offset hi)\<rparr>"

text \<open>The history, the n-grams and the vertical tokens of a run, when it returns.\<close>

definition result_history :: "(error + engine_state) option \<Rightarrow> moment list option" where
  "result_history r = (case r of Some (Inr st) \<Rightarrow> Some (interval_history st) | _ \<Rightarrow> None)"


definition result_tokens :: "(error + engine_state) option \<Rightarrow> (int \<times> int) option list option" where
  "result_tokens r = (case r of Some (Inr st) \<Rightarrow> Some (vertical_tokens st) | _ \<Rightarrow> None)"

section \<open>The n-gram indexer (window builder and formatter)\<close>

text \<open>
  Modelled from the spec: the class \<open>NewNGramIndexer\<close> of
  \<open>vis/analyzers/indexers/new_ngram.py\<close> is not among the sources; only its tests
  (\<open>vis/tests/test_new_ngram.py\<close>) are. The definitions of this section follow the
  component design of the specification (sections 4.3, 4.4, 6 and 7): the constructor
  and its validation, the window builder with the continuer, the terminator and the
  padding at the end of the stream, and the plain mode of the formatter. Where the
  specification leaves a choice open (which rows anchor a window at the end of the
  stream), the choice is the one that agrees with scenario A of the specification and
  with the expected values of the tests.

  A token stream is a list of pairs of an offset and a token, in the order of the
  offsets. The score gives the declared columns by name. The settings are a dictionary;
  \<open>None\<close> is an absent key.
\<close>

type_synonym token_stream = "(rat \<times> string) list"

type_synonym frame = "(string \<times> token_stream) list"

record ngram_settings =
  setting_n :: "int option"
  setting_vertical :: "string list option"
  setting_horizontal :: "string list option"
  setting_terminator :: "string list option"
  setting_continuer :: "string option"

record ngram_indexer =
  ix_score :: frame
  ix_n :: int
  ix_vertical :: "string list"
  ix_horizontal :: "string list"
  ix_terminator :: "string list"
  ix_continuer :: string

definition MISSING_SETTINGS :: string where
  "MISSING_SETTINGS = ''_MISSING_SETTINGS''"

definition N_VALUE_TOO_LOW :: string where
  "N_VALUE_TOO_LOW = ''_N_VALUE_TOO_LOW''"

definition UNDECLARED_VOICE :: string where
  "UNDECLARED_VOICE = ''_UNDECLARED_VOICE''"

text \<open>
  Modelled from the spec: the constructor of \<open>NewNGramIndexer\<close>. The window size and at
  least one vertical grouping are mandatory, the window size is at least 1, and every
  grouping names a declared column; the other options take their defaults (no horizontal
  grouping, no terminator, the continuer \<open>_\<close>).
\<close>

definition NewNGramIndexer_init :: "frame \<Rightarrow> ngram_settings \<Rightarrow> error + ngram_indexer" where
  "NewNGramIndexer_init score setts =
     (case (setting_n setts, setting_vertical setts) of
        (Some k, Some verts) \<Rightarrow>
          (let horiz = (case setting_horizontal setts of None \<Rightarrow> [] | Some hs \<Rightarrow> hs)
           in if verts = [] then Inl (RuntimeError MISSING_SETTINGS)
              else if k < 1 then Inl (RuntimeError N_VALUE_TOO_LOW)
              else if \<not> list_all (\<lambda>c. map_of score c \<noteq> None) (verts @ horiz)
                then Inl (RuntimeError UNDECLARED_VOICE)
              else Inr \<lparr>ix_score = score, ix_n = k, ix_vertical = verts, ix_horizontal = horiz,
                        ix_terminator = (case setting_terminator setts of
                                           None \<Rightarrow> [] | Some ts \<Rightarrow> ts),
                        ix_continuer = (case setting_continuer setts of
                                          None \<Rightarrow> ''_'' | Some c \<Rightarrow> c)\<rparr>)
      | _ \<Rightarrow> Inl (RuntimeError MISSING_SETTINGS))"

text \<open>
  Modelled from the spec: the rows the window builder slides over. There is a row at
  every offset of a configured column. A vertical slot holds the current token of each
  vertical column (the latest at or before the offset); a horizontal slot holds, for
  each horizontal column, the token observed at exactly that offset, if any. A row
  counts once every vertical column has had a token.
\<close>

record aligned_row =
  at_offset :: rat
  vertical_slot :: "string list"
  horizontal_seen :: "string option list"

definition column :: "frame \<Rightarrow> string \<Rightarrow> token_stream" where
  "column score c = (case map_of score c of None \<Rightarrow> [] | Some ts \<Rightarrow> ts)"

definition current_token :: "token_stream \<Rightarrow> rat \<Rightarrow> string option" where
  "current_token ts t =
     (case filter (\<lambda>ov. fst ov \<le> t) ts of [] \<Rightarrow> None | x # xs \<Rightarrow> Some (snd (last (x # xs))))"

definition union_offsets :: "ngram_indexer \<Rightarrow> rat list" where
  "union_offsets ix =
     sort (remdups (concat (map (\<lambda>c. map fst (column (ix_score ix) c))
                               (ix_vertical ix @ ix_horizontal ix))))"

definition aligned_rows :: "ngram_indexer \<Rightarrow> aligned_row list" where
  "aligned_rows ix =
     map (\<lambda>t. \<lparr>at_offset = t,
                vertical_slot = map (\<lambda>c. the (current_token (column (ix_score ix) c) t))
                                      (ix_vertical ix),
                horizontal_seen = map (\<lambda>c. map_of (column (ix_score ix) c) t)
                                      (ix_horizontal ix)\<rparr>)
         (filter (\<lambda>t. list_all (\<lambda>c. current_token (column (ix_score ix) c) t \<noteq> None)
                                 (ix_vertical ix))
                 (union_offsets ix))"

text \<open>
  Modelled from the spec: the shortfall at the end of the stream. A horizontal token
  observed at the last row describes the move to a vertical moment the stream does not
  have: the last vertical slot is repeated once, so that the window that ends there has
  its \<open>n\<close> vertical slots.
\<close>

definition padded_rows :: "ngram_indexer \<Rightarrow> aligned_row list" where
  "padded_rows ix =
     (let rs = aligned_rows ix
      in if rs \<noteq> [] \<and> list_ex (\<lambda>h. h \<noteq> None) (horizontal_seen (last rs))
         then rs @ [\<lparr>at_offset = at_offset (last rs),
                      vertical_slot = vertical_slot (last rs),
                      horizontal_seen = map (\<lambda>h. None) (horizontal_seen (last rs))\<rparr>]
         else rs)"

text \<open>
  Modelled from the spec: a window is the \<open>n\<close> vertical slots of \<open>n\<close> consecutive rows
  and the \<open>n - 1\<close> horizontal slots between them, a missing horizontal observation
  replaced by the continuer. Without horizontal columns a window has no horizontal slot.
\<close>

record window =
  verticals :: "string list list"
  horizontals :: "string list list"

definition window_at :: "ngram_indexer \<Rightarrow> nat \<Rightarrow> window" where
  "window_at ix i =
     (let rs = take (nat (ix_n ix)) (drop i (padded_rows ix))
      in \<lparr>verticals = map vertical_slot rs,
          horizontals =
            (if ix_horizontal ix = [] then []
             else map (\<lambda>r. map (\<lambda>h. case h of None \<Rightarrow> ix_continuer ix | Some v \<Rightarrow> v)
                                (horizontal_seen r))
                      (butlast rs))\<rparr>)"

text \<open>
  Modelled from the spec: a window one of whose slots holds a terminator token is
  discarded; the scan goes on at the next row.
\<close>

definition has_terminator :: "ngram_indexer \<Rightarrow> window \<Rightarrow> bool" where
  "has_terminator ix w \<longleftrightarrow>
     list_ex (\<lambda>slot. list_ex (\<lambda>tok. tok \<in> set (ix_terminator ix)) slot)
             (verticals w @ horizontals w)"

definition anchors :: "ngram_indexer \<Rightarrow> nat list" where
  "anchors ix =
     filter (\<lambda>i. i + nat (ix_n ix) \<le> length (padded_rows ix)
                 \<and> \<not> has_terminator ix (window_at ix i))
            [0..<length (aligned_rows ix)]"

definition windows :: "ngram_indexer \<Rightarrow> (rat \<times> window) list" where
  "windows ix = map (\<lambda>i. (at_offset (aligned_rows ix ! i), window_at ix i)) (anchors ix)"

text \<open>
  Modelled from the spec: the plain mode of the formatter. The tokens of the window in
  document order (vertical, horizontal, vertical, ..., vertical), joined by single
  spaces.
\<close>

fun document_order :: "string list list \<Rightarrow> string list list \<Rightarrow> string list" where
  "document_order [] hs = []"
| "document_order (v # vs) [] = v @ document_order vs []"
| "document_order (v # vs) (h # hs) = v @ h @ document_order vs hs"

definition plain_label :: "window \<Rightarrow> string" where
  "plain_label w = join_space (document_order (verticals w) (horizontals w))"

definition NewNGramIndexer_run :: "ngram_indexer \<Rightarrow> (rat \<times> string) list" where
  "NewNGramIndexer_run ix = map (\<lambda>(t, w). (t, plain_label w)) (windows ix)"

text \<open>
  Modelled from the spec: constructing the indexer and running it, the whole analysis of
  one score. The constructor's error is the result when it raises.
\<close>

definition new_ngram_index :: "frame \<Rightarrow> ngram_settings \<Rightarrow> error + (rat \<times> string) list" where
  "new_ngram_index score setts =
     (case NewNGramIndexer_init score setts of
        Inl e \<Rightarrow> Inl e
      | Inr ix \<Rightarrow> Inr (NewNGramIndexer_run ix))"

text \<open>A stream that has one token at each of the offsets 0, 1, 2, ...\<close>

definition stream_of :: "string list \<Rightarrow> token_stream" where
  "stream_of toks = zip (map of_nat [0..<length toks]) toks"






section \<open>Properties of the duration filler\<close>









section \<open>Properties of the rounding helper\<close>



section \<open>Properties of the over-bass constructor\<close>

text \<open>
  What the constructor does check: a \<open>horizontal\<close> setting above the index of the last
  column is refused, and an absent setting becomes the index of the last column.
\<close>

lemma OverBassIndexer_init_too_high:
  assumes "map_of score ''noterest.NoteRestIndexer'' = Some columns"
    and "h > int (length columns) - 1"
  shows "OverBassIndexer_init score (Some \<lparr>type_setting = None, horizontal = Some h\<rparr>)
           = Inl (RuntimeError WRONG_HORIZ)"
  using assms by (simp add: OverBassIndexer_init_def types_def)

lemma OverBassIndexer_init_absent:
  assumes "map_of score ''noterest.NoteRestIndexer'' = Some columns"
    and "map_of score ''interval.IntervalIndexer'' = Some vert"
  shows "\<exists>ix. OverBassIndexer_init score None = Inr ix \<and>
           horizontal_voice ix = int (length columns) - 1"
  using assms by (simp add: OverBassIndexer_init_def types_def)

text \<open>
  Claim C7 asks that every \<open>horizontal\<close> setting that denotes no voice of the piece is
  refused with a \<open>RuntimeError\<close> when the indexer is constructed, as the docstring of the
  constructor promises. The constructor compares the setting with the index of the last
  column only: on a piece of two voices the setting \<open>-1\<close> denotes no voice, and the
  constructor returns an indexer whose bass voice is \<open>-1\<close>.
\<close>

theorem OverBassIndexer_init_accepts_negative_voice:
  "\<not> voice_present [''0'', ''1''] (- 1) \<and>
   OverBassIndexer_init
     [(''noterest.NoteRestIndexer'', [''0'', ''1'']), (''interval.IntervalIndexer'', [''0,1''])]
     (Some \<lparr>type_setting = None, horizontal = Some (- 1)\<rparr>)
   = Inr \<lparr>settings_type = ''notes'', settings_horizontal = - 1,
          horiz_score = [''0'', ''1''], horizontal_voice = - 1, vert_score = [''0,1'']\<rparr>"
  by (simp add: OverBassIndexer_init_def types_def voice_present_def)

section \<open>Properties of the string version of an n-gram\<close>

lemma split_space_nonempty: "split_space s \<noteq> []"
  by (induction s) (auto split: list.splits)

lemma join_space_Cons: "ps \<noteq> [] \<Longrightarrow> join_space (p # ps) = p @ CHR '' '' # join_space ps"
  by (cases ps) auto

lemma join_split_space: "join_space (split_space s) = s"
proof (induction s)
  case Nil
  show ?case by simp
next
  case (Cons c cs)
  show ?case
  proof (cases "c = CHR '' ''")
    case True
    then show ?thesis using Cons split_space_nonempty [of cs]
      by (simp add: join_space_Cons)
  next
    case False
    obtain p ps where sp: "split_space cs = p # ps"
      using split_space_nonempty [of cs] by (cases "split_space cs") auto
    show ?thesis
    proof (cases ps)
      case Nil
      with sp Cons False show ?thesis by simp
    next
      case (Cons q qs)
      with sp Cons.IH False show ?thesis by simp
    qed
  qed
qed

lemma join_space_snoc:
  "join_space (ws @ [w]) = (if ws = [] then w else join_space ws @ CHR '' '' # w)"
  by (induction ws rule: join_space.induct) auto

lemma join_space_empty_iff: "list_all word ws \<Longrightarrow> join_space ws = [] \<longleftrightarrow> ws = []"
  by (induction ws rule: join_space.induct) (auto simp: word_def)

lemma leading_space_append: "w \<noteq> [] \<Longrightarrow> leading_space (w @ r) = leading_space w"
  by (cases w) (auto simp: leading_space_def)

lemma leading_space_word: "word w \<Longrightarrow> \<not> leading_space w"
  by (cases w) (auto simp: word_def leading_space_def)

lemma word_rev: "word w \<Longrightarrow> word (rev w)"
  by (simp add: word_def)

lemma leading_join: "list_all word ws \<Longrightarrow> \<not> leading_space (join_space ws)"
proof (induction ws rule: join_space.induct)
  case 1
  show ?case by (simp add: leading_space_def)
next
  case (2 p)
  then show ?case by (simp add: leading_space_word)
next
  case (3 p q ps)
  then have "word p" by simp
  then show ?case
    using leading_space_append [of p] leading_space_word [of p] by (simp add: word_def)
qed

lemma trailing_join: "list_all word ws \<Longrightarrow> \<not> trailing_space (join_space ws)"
proof (induction ws rule: rev_induct)
  case Nil
  then show ?case by (simp add: trailing_space_def leading_space_def)
next
  case (snoc w ws)
  then have w: "word (rev w)" by (simp add: word_rev)
  then have "rev w \<noteq> []" by (simp add: word_def)
  then show ?case
    using leading_space_append [of "rev w"] leading_space_word [OF w]
    by (simp add: join_space_snoc trailing_space_def)
qed

lemma consecutive_word: "CHR '' '' \<notin> set w \<Longrightarrow> \<not> consecutive_spaces w"
  by (induction w rule: consecutive_spaces.induct) auto

lemma consecutive_word_app:
  "word w \<Longrightarrow> consecutive_spaces (w @ CHR '' '' # r) \<longleftrightarrow> consecutive_spaces (CHR '' '' # r)"
proof (induction w)
  case Nil
  then show ?case by (simp add: word_def)
next
  case (Cons c w)
  note prems = Cons.prems and ih = Cons.IH
  show ?case
  proof (cases w)
    case Nil
    with prems show ?thesis by (simp add: word_def)
  next
    case (Cons d w')
    with prems ih show ?thesis by (auto simp: word_def)
  qed
qed

lemma consecutive_join: "list_all word ws \<Longrightarrow> \<not> consecutive_spaces (join_space ws)"
proof (induction ws rule: join_space.induct)
  case 1
  then show ?case by simp
next
  case (2 p)
  then show ?case by (simp add: consecutive_word word_def)
next
  case (3 p q ps)
  then have ih: "\<not> consecutive_spaces (join_space (q # ps))" and p: "word p" and q: "list_all word (q # ps)"
    by simp_all
  from leading_join [OF q] obtain c r where cr: "join_space (q # ps) = c # r" "c \<noteq> CHR '' ''"
    using join_space_empty_iff [OF q]
    by (cases "join_space (q # ps)") (auto simp: leading_space_def)
  show ?case
    using p ih cr by (simp add: consecutive_word_app)
qed

lemma name_ok_word: "interval_name_ok s \<Longrightarrow> word (if \<not> heed then drop 1 s else s)"
  by (cases s) (auto simp: interval_name_ok_def word_def dest: in_set_dropD)

lemma name_ok_signed: "interval_name_ok s \<Longrightarrow> word (''+'' @ (if \<not> heed then drop 1 s else s))"
  "interval_name_ok s \<Longrightarrow> word (''-'' @ (if \<not> heed then drop 1 s else s))"
  using name_ok_word [of s heed] by (auto simp: word_def)

lemma stringVersion_step_words:
  assumes ws: "list_all word ws"
    and i: "i < length (listOfIntervals ng)"
    and ok: "ngram_names_ok ng"
  shows "\<exists>ws'. stringVersion_step ng ''compound'' heed i (join_space ws) = Inr (join_space ws')
           \<and> list_all word ws'"
proof -
  define thisInt where "thisInt = (if \<not> heed then drop 1 (name (listOfIntervals ng ! i)) else name (listOfIntervals ng ! i))"
  have iok: "interval_name_ok (name (listOfIntervals ng ! i))"
    using ok i by (simp add: ngram_names_ok_def list_all_length)
  then have w1: "word thisInt" unfolding thisInt_def by (rule name_ok_word)
  define post2 where "post2 = (if length (join_space ws) > 0 then join_space ws @ '' '' else join_space ws) @ thisInt"
  have p2: "post2 = join_space (ws @ [thisInt])"
    using join_space_empty_iff [OF ws] by (auto simp: post2_def join_space_snoc)
  have ws1: "list_all word (ws @ [thisInt])" using ws w1 by simp
  show ?thesis
  proof (cases "i < length (listOfMovements ng)")
    case False
    then have "stringVersion_step ng ''compound'' heed i (join_space ws) = Inr post2"
      by (simp add: stringVersion_step_def sized_name_def post2_def thisInt_def Let_def)
    with p2 ws1 show ?thesis by blast
  next
    case True
    define m where "m = listOfMovements ng ! i"
    define zzz where "zzz = (if \<not> heed then drop 1 (name m) else name m)"
    define sign where "sign = (if direction m = 1 then ''+'' else if direction m = - 1 then ''-'' else [])"
    have mok: "interval_name_ok (name m)"
      using ok True by (simp add: ngram_names_ok_def list_all_length m_def)
    have w2: "word (sign @ zzz)"
      using name_ok_word [OF mok, of heed] name_ok_signed [OF mok, of heed]
      by (auto simp: sign_def zzz_def)
    have "stringVersion_step ng ''compound'' heed i (join_space ws) = Inr (post2 @ CHR '' '' # sign @ zzz)"
      using True
      by (simp add: stringVersion_step_def sized_name_def post2_def thisInt_def Let_def m_def sign_def zzz_def)
    also have "post2 @ CHR '' '' # sign @ zzz = join_space ((ws @ [thisInt]) @ [sign @ zzz])"
      unfolding p2 by (subst join_space_snoc) simp
    finally show ?thesis using ws1 w2 by (intro exI [of _ "(ws @ [thisInt]) @ [sign @ zzz]"]) simp
  qed
qed

lemma stringVersion_loop_words:
  assumes "list_all word ws"
    and "\<forall>i \<in> set is. i < length (listOfIntervals ng)"
    and "ngram_names_ok ng"
  shows "\<exists>ws'. stringVersion_loop ng ''compound'' heed is (join_space ws) = Inr (join_space ws')
           \<and> list_all word ws'"
  using assms
proof (induction "is" arbitrary: ws)
  case Nil
  then show ?case by auto
next
  case (Cons i "is")
  from stringVersion_step_words [OF Cons.prems(1) _ Cons.prems(3), of i heed] Cons.prems(2)
  obtain ws1 where s: "stringVersion_step ng ''compound'' heed i (join_space ws) = Inr (join_space ws1)"
    "list_all word ws1" by auto
  from Cons.IH [OF s(2) _ Cons.prems(3)] Cons.prems(2)
  obtain ws' where "stringVersion_loop ng ''compound'' heed is (join_space ws1) = Inr (join_space ws')"
    "list_all word ws'" by auto
  with s show ?case by auto
qed

text \<open>
  Claim C9. For every \<open>NGram\<close> (whose intervals and movements carry music21 names),
  \<open>str(ngram)\<close> returns a label; splitting the label on single spaces and joining the
  pieces with single spaces gives the label back, and the label has no leading space,
  no trailing space and no two spaces in a row.
\<close>

theorem str_NGram_split_join:
  assumes "ngram_names_ok ng"
  shows "\<exists>label. str_NGram ng = Inr label \<and>
           join_space (split_space label) = label \<and>
           \<not> leading_space label \<and> \<not> trailing_space label \<and> \<not> consecutive_spaces label"
proof -
  have "\<exists>ws'. stringVersion_loop ng ''compound'' (heedQuality ng) [0..<length (listOfIntervals ng)] (join_space [])
           = Inr (join_space ws') \<and> list_all word ws'"
    using assms by (intro stringVersion_loop_words) simp_all
  then obtain ws where "str_NGram ng = Inr (join_space ws)" "list_all word ws"
    by (auto simp: str_NGram_def stringVersion_def)
  then show ?thesis
    using join_split_space leading_join trailing_join consecutive_join by blast
qed

theorem str_NGram_split_join_witness:
  "ngram_names_ok
     \<lparr>heedQuality = False,
      listOfIntervals = [\<lparr>name = ''M3'', semiSimpleName = ''M3'', direction = 1\<rparr>,
                         \<lparr>name = ''P5'', semiSimpleName = ''P5'', direction = 1\<rparr>,
                         \<lparr>name = ''M10'', semiSimpleName = ''M3'', direction = 1\<rparr>],
      listOfMovements = [\<lparr>name = ''M2'', semiSimpleName = ''M2'', direction = - 1\<rparr>,
                         \<lparr>name = ''P1'', semiSimpleName = ''P1'', direction = 0\<rparr>]\<rparr> \<and>
   (\<exists>label.
      str_NGram
        \<lparr>heedQuality = False,
         listOfIntervals = [\<lparr>name = ''M3'', semiSimpleName = ''M3'', direction = 1\<rparr>,
                            \<lparr>name = ''P5'', semiSimpleName = ''P5'', direction = 1\<rparr>,
                            \<lparr>name = ''M10'', semiSimpleName = ''M3'', direction = 1\<rparr>],
         listOfMovements = [\<lparr>name = ''M2'', semiSimpleName = ''M2'', direction = - 1\<rparr>,
                            \<lparr>name = ''P1'', semiSimpleName = ''P1'', direction = 0\<rparr>]\<rparr>
        = Inr label \<and>
      join_space (split_space label) = label \<and>
      \<not> leading_space label \<and> \<not> trailing_space label \<and> \<not> consecutive_spaces label)"
proof -
  have h: "ngram_names_ok
     \<lparr>heedQuality = False,
      listOfIntervals = [\<lparr>name = ''M3'', semiSimpleName = ''M3'', direction = 1\<rparr>,
                         \<lparr>name = ''P5'', semiSimpleName = ''P5'', direction = 1\<rparr>,
                         \<lparr>name = ''M10'', semiSimpleName = ''M3'', direction = 1\<rparr>],
      listOfMovements = [\<lparr>name = ''M2'', semiSimpleName = ''M2'', direction = - 1\<rparr>,
                         \<lparr>name = ''P1'', semiSimpleName = ''P1'', direction = 0\<rparr>]\<rparr>"
    by (simp add: ngram_names_ok_def interval_name_ok_def)
  show ?thesis
    using h str_NGram_split_join [OF h] by blast
qed

text \<open>The label of that n-gram, computed.\<close>

lemma str_NGram_example:
  "str_NGram
     \<lparr>heedQuality = False,
      listOfIntervals = [\<lparr>name = ''M3'', semiSimpleName = ''M3'', direction = 1\<rparr>,
                         \<lparr>name = ''P5'', semiSimpleName = ''P5'', direction = 1\<rparr>,
                         \<lparr>name = ''M10'', semiSimpleName = ''M3'', direction = 1\<rparr>],
      listOfMovements = [\<lparr>name = ''M2'', semiSimpleName = ''M2'', direction = - 1\<rparr>,
                         \<lparr>name = ''P1'', semiSimpleName = ''P1'', direction = 0\<rparr>]\<rparr>
   = Inr ''3 -2 5 1 10''"
  by code_simp

section \<open>Properties of visTheseParts\<close>

lemma update_voice_cases:
  assumes "update_voice fn t m p = (m', p', u)"
  shows "(\<not> u \<and> m' = m) \<or>
         (u \<and> (\<exists>g. m' = Some g \<and> g \<in> set fn \<and> offset g = t \<and>
                 (\<forall>m0. m = Some m0 \<longrightarrow> pitch_of g \<noteq> pitch_of m0)))"
proof (cases "getElementsByOffset fn t")
  case Nil
  with assms show ?thesis by (auto simp: update_voice_def)
next
  case (Cons g gs)
  then have "g \<in> set (getElementsByOffset fn t)" by simp
  then have g: "g \<in> set fn" "offset g = t" by (auto simp: getElementsByOffset_def)
  with assms Cons show ?thesis
    by (auto simp: update_voice_def Let_def split: if_splits)
qed

lemma visTheseParts_body_cases:
  assumes "visTheseParts_body hfn lfn t s = Inr s'"
  shows "(rows s' = rows s \<and> mostRecentLow s' = mostRecentLow s \<and> mostRecentHigh s' = mostRecentHigh s) \<or>
         (\<exists>lo hi. rows s' = rows s @ [(t, lo, hi)] \<and> mostRecentLow s' = Some lo \<and>
            mostRecentHigh s' = Some hi \<and> t \<in> offsets_of hfn \<union> offsets_of lfn \<and>
            (\<forall>lo0 hi0. mostRecentLow s = Some lo0 \<longrightarrow> mostRecentHigh s = Some hi0 \<longrightarrow>
               (pitch_of lo, pitch_of hi) \<noteq> (pitch_of lo0, pitch_of hi0)))"
proof -
  obtain low1 pl1 lu where L: "update_voice lfn t (mostRecentLow s) (previousLows s) = (low1, pl1, lu)"
    by (metis prod_cases3)
  obtain high1 ph1 hu where H: "update_voice hfn t (mostRecentHigh s) (previousHighs s) = (high1, ph1, hu)"
    by (metis prod_cases3)
  note lc = update_voice_cases [OF L] and hc = update_voice_cases [OF H]
  show ?thesis
  proof (cases "lu \<or> hu")
    case False
    with assms L H lc hc show ?thesis
      by (auto simp: visTheseParts_body_def Let_def)
  next
    case True
    with assms L H obtain lo hi where lh: "low1 = Some lo" "high1 = Some hi"
      by (auto simp: visTheseParts_body_def Let_def split: option.splits)
    with assms L H True have r: "rows s' = rows s @ [(t, lo, hi)]" "mostRecentLow s' = Some lo"
      "mostRecentHigh s' = Some hi"
      by (auto simp: visTheseParts_body_def Let_def split: option.splits if_splits)
    have u: "t \<in> offsets_of hfn \<union> offsets_of lfn"
      using True lc hc by (auto simp: offsets_of_def)
    have d: "\<forall>lo0 hi0. mostRecentLow s = Some lo0 \<longrightarrow> mostRecentHigh s = Some hi0 \<longrightarrow>
               (pitch_of lo, pitch_of hi) \<noteq> (pitch_of lo0, pitch_of hi0)"
      using True lc hc lh by auto
    from r u d show ?thesis by blast
  qed
qed

lemma on_grid_step: "on_grid t \<Longrightarrow> on_grid (t + 1/2)"
proof -
  assume g: "on_grid t"
  have "(t + 1/2) * 2 = t * 2 + 1" by (simp add: algebra_simps)
  moreover have "\<lfloor>t * 2 + 1\<rfloor> = \<lfloor>t * 2\<rfloor> + 1" by simp
  ultimately show ?thesis using g by (simp add: on_grid_def)
qed

lemma on_grid_less_half:
  assumes "on_grid t" "on_grid x" "x < t + 1/2"
  shows "x \<le> t"
proof -
  from assms have "of_int \<lfloor>x * 2\<rfloor> < (of_int \<lfloor>t * 2\<rfloor> + 1 :: rat)"
    by (simp add: on_grid_def algebra_simps)
  then have "of_int \<lfloor>x * 2\<rfloor> < (of_int (\<lfloor>t * 2\<rfloor> + 1) :: rat)" by simp
  then have "\<lfloor>x * 2\<rfloor> < \<lfloor>t * 2\<rfloor> + 1" by (simp only: of_int_less_iff)
  then have "\<lfloor>x * 2\<rfloor> \<le> \<lfloor>t * 2\<rfloor>" by simp
  then have "(of_int \<lfloor>x * 2\<rfloor> :: rat) \<le> of_int \<lfloor>t * 2\<rfloor>" by (simp only: of_int_le_iff)
  with assms show ?thesis by (simp add: on_grid_def)
qed

text \<open>The invariant of the rows holds after the loop when it holds before.\<close>

lemma rows_inv_loop:
  assumes "rows_inv hfn lfn t s" and "visTheseParts_loop hfn lfn highest t s = Inr s'"
  shows "\<exists>t'. rows_inv hfn lfn t' s'"
  using assms
proof (induction hfn lfn highest t s rule: visTheseParts_loop.induct)
  case (1 hfn lfn highest t s)
  show ?case
  proof (cases "t \<le> highest")
    case False
    with "1.prems" show ?thesis by (subst (asm) visTheseParts_loop.simps) auto
  next
    case True
    with "1.prems"(2) obtain s1 where b: "visTheseParts_body hfn lfn t s = Inr s1"
      and l: "visTheseParts_loop hfn lfn highest (t + 1/2) s1 = Inr s'"
      by (subst (asm) visTheseParts_loop.simps) (auto split: sum.splits)
    have inv: "rows_inv hfn lfn (t + 1/2) s1"
      using visTheseParts_body_cases [OF b]
    proof
      assume "rows s1 = rows s \<and> mostRecentLow s1 = mostRecentLow s \<and> mostRecentHigh s1 = mostRecentHigh s"
      with "1.prems"(1) show ?thesis
        by (auto simp: rows_inv_def on_grid_step)
    next
      assume "\<exists>lo hi. rows s1 = rows s @ [(t, lo, hi)] \<and> mostRecentLow s1 = Some lo \<and>
            mostRecentHigh s1 = Some hi \<and> t \<in> offsets_of hfn \<union> offsets_of lfn \<and>
            (\<forall>lo0 hi0. mostRecentLow s = Some lo0 \<longrightarrow> mostRecentHigh s = Some hi0 \<longrightarrow>
               (pitch_of lo, pitch_of hi) \<noteq> (pitch_of lo0, pitch_of hi0))"
      then obtain lo hi where r: "rows s1 = rows s @ [(t, lo, hi)]" "mostRecentLow s1 = Some lo"
        "mostRecentHigh s1 = Some hi" "t \<in> offsets_of hfn \<union> offsets_of lfn"
        and d: "\<forall>lo0 hi0. mostRecentLow s = Some lo0 \<longrightarrow> mostRecentHigh s = Some hi0 \<longrightarrow>
               (pitch_of lo, pitch_of hi) \<noteq> (pitch_of lo0, pitch_of hi0)" by blast
      have adj: "rows s \<noteq> [] \<longrightarrow> row_pitches (last (rows s)) \<noteq> row_pitches (t, lo, hi)"
        using "1.prems"(1) d by (auto simp: rows_inv_def row_pitches_def)
      have da: "distinct_adj (map row_pitches (rows s @ [(t, lo, hi)]))"
        using "1.prems"(1) adj
        by (auto simp: rows_inv_def distinct_adj_append_iff last_map)
      have so: "sorted_wrt (<) (map row_offset (rows s @ [(t, lo, hi)]))"
        using "1.prems"(1) by (auto simp: rows_inv_def sorted_wrt_append row_offset_def)
      show ?thesis
        using "1.prems"(1) r da so
        by (auto simp: rows_inv_def on_grid_step row_offset_def)
    qed
    from "1.IH" [OF True b inv l] show ?thesis .
  qed
qed

lemma sorted_offsets_split:
  assumes "sorted_wrt (<) (map offset xs)" and "e \<in> set xs"
  shows "\<exists>ys zs. xs = ys @ e # zs \<and> (\<forall>y\<in>set ys. offset y < offset e) \<and>
           (\<forall>z\<in>set zs. offset e < offset z)"
proof -
  from assms(2) obtain ys zs where xs: "xs = ys @ e # zs" by (auto dest: split_list)
  with assms(1) show ?thesis
    by (intro exI [of _ ys] exI [of _ zs]) (auto simp: sorted_wrt_append)
qed

lemma last_before_eq:
  "last_before xs t = (if filter (\<lambda>e. offset e < t) xs = [] then None
                       else Some (last (filter (\<lambda>e. offset e < t) xs)))"
  by (simp add: last_before_def split: list.splits)

text \<open>
  On a time series of the grid, the update of a voice at a grid offset leaves the last
  note before the next grid offset, and updates exactly when the voice has a note there.
\<close>

lemma update_voice_series:
  assumes gs: "grid_series fn" and t: "on_grid t"
    and u: "update_voice fn t (last_before fn t) p = (m', p', u)"
  shows "m' = last_before fn (t + 1/2) \<and> (u \<longleftrightarrow> t \<in> offsets_of fn)"
proof (cases "t \<in> offsets_of fn")
  case False
  then have none: "\<forall>e\<in>set fn. offset e \<noteq> t" by (auto simp: offsets_of_def)
  then have g: "getElementsByOffset fn t = []"
    by (auto simp: getElementsByOffset_def filter_empty_conv)
  have "\<forall>e\<in>set fn. (offset e < t + 1/2) = (offset e < t)"
  proof
    fix e assume e: "e \<in> set fn"
    then have "on_grid (offset e)" using gs by (auto simp: grid_series_def list_all_iff)
    from on_grid_less_half [OF t this] none e show "(offset e < t + 1/2) = (offset e < t)"
      by fastforce
  qed
  then have "filter (\<lambda>e. offset e < t + 1/2) fn = filter (\<lambda>e. offset e < t) fn"
    by (intro filter_cong) auto
  then have "last_before fn (t + 1/2) = last_before fn t" by (simp add: last_before_eq)
  with u g False show ?thesis by (simp add: update_voice_def)
next
  case True
  then obtain e where e: "e \<in> set fn" "offset e = t" by (auto simp: offsets_of_def)
  from gs have so: "sorted_wrt (<) (map offset fn)" and da: "distinct_adj (map pitch_of fn)"
    and og: "\<forall>x\<in>set fn. on_grid (offset x)"
    by (auto simp: grid_series_def list_all_iff)
  from sorted_offsets_split [OF so e(1)] e(2) obtain ys zs where
    fn: "fn = ys @ e # zs" and ys: "\<forall>y\<in>set ys. offset y < t" and zs: "\<forall>z\<in>set zs. t < offset z"
    by auto
  have zs': "\<forall>z\<in>set zs. \<not> offset z < t + 1/2"
  proof
    fix z assume z: "z \<in> set zs"
    then have "on_grid (offset z)" using og fn by simp
    from on_grid_less_half [OF t this] zs z show "\<not> offset z < t + 1/2" by fastforce
  qed
  have "filter (\<lambda>x. offset x = t) ys = []" "filter (\<lambda>x. offset x = t) zs = []"
    using ys zs by (auto simp: filter_empty_conv)
  then have g: "getElementsByOffset fn t = [e]"
    using e(2) by (simp add: getElementsByOffset_def fn)
  have "filter (\<lambda>x. offset x < t) ys = ys" "filter (\<lambda>x. offset x < t) zs = []"
    using ys zs by (auto simp: filter_empty_conv filter_id_conv)
  then have f1: "filter (\<lambda>x. offset x < t) fn = ys"
    using e(2) by (simp add: fn)
  have f2: "filter (\<lambda>x. offset x < t + 1/2) fn = ys @ [e]"
  proof -
    have "filter (\<lambda>x. offset x < t + 1/2) ys = ys"
      using ys by (auto simp: filter_id_conv intro: less_trans)
    moreover have "filter (\<lambda>x. offset x < t + 1/2) zs = []"
      using zs' by (auto simp: filter_empty_conv)
    ultimately show ?thesis using e(2) by (simp add: fn)
  qed
  have lb: "last_before fn t = (if ys = [] then None else Some (last ys))"
    by (simp add: last_before_eq f1)
  have lb2: "last_before fn (t + 1/2) = Some e"
    by (simp add: last_before_eq f2)
  have pd: "ys \<noteq> [] \<longrightarrow> pitch_of e \<noteq> pitch_of (last ys)"
    using da by (auto simp: fn distinct_adj_append_iff last_map)
  from u g lb pd lb2 True show ?thesis
    by (auto simp: update_voice_def Let_def split: if_splits)
qed

lemma visTheseParts_body_result:
  assumes "visTheseParts_body hfn lfn t s = Inr s1"
    and "update_voice lfn t (mostRecentLow s) (previousLows s) = (low1, pl1, lu)"
    and "update_voice hfn t (mostRecentHigh s) (previousHighs s) = (high1, ph1, hu)"
  shows "mostRecentLow s1 = low1 \<and> mostRecentHigh s1 = high1 \<and>
         map row_offset (rows s1) = map row_offset (rows s) @ (if lu \<or> hu then [t] else [])"
  using assms
  by (auto simp: visTheseParts_body_def Let_def row_offset_def split: option.splits if_splits)

lemma series_inv_body:
  assumes gh: "grid_series hfn" and gl: "grid_series lfn"
    and inv: "series_inv hfn lfn t s"
    and b: "visTheseParts_body hfn lfn t s = Inr s1"
  shows "series_inv hfn lfn (t + 1/2) s1"
proof -
  from inv have t: "on_grid t" and ml: "mostRecentLow s = last_before lfn t"
    and mh: "mostRecentHigh s = last_before hfn t"
    and rs: "set (map row_offset (rows s)) = {x \<in> offsets_of hfn \<union> offsets_of lfn. x < t}"
    by (auto simp: series_inv_def)
  obtain low1 pl1 lu where L: "update_voice lfn t (mostRecentLow s) (previousLows s) = (low1, pl1, lu)"
    by (metis prod_cases3)
  obtain high1 ph1 hu where H: "update_voice hfn t (mostRecentHigh s) (previousHighs s) = (high1, ph1, hu)"
    by (metis prod_cases3)
  from update_voice_series [OF gl t L [unfolded ml]]
  have l1: "low1 = last_before lfn (t + 1/2)" and lu: "lu \<longleftrightarrow> t \<in> offsets_of lfn" by auto
  from update_voice_series [OF gh t H [unfolded mh]]
  have h1: "high1 = last_before hfn (t + 1/2)" and hu: "hu \<longleftrightarrow> t \<in> offsets_of hfn" by auto
  from visTheseParts_body_result [OF b L H]
  have r: "mostRecentLow s1 = low1" "mostRecentHigh s1 = high1"
    "map row_offset (rows s1) = map row_offset (rows s) @ (if lu \<or> hu then [t] else [])" by auto
  have og: "\<forall>x \<in> offsets_of hfn \<union> offsets_of lfn. on_grid x"
    using gh gl by (auto simp: grid_series_def list_all_iff offsets_of_def)
  have half: "\<forall>x \<in> offsets_of hfn \<union> offsets_of lfn. (x < t + 1/2) = (x < t \<or> x = t)"
  proof
    fix x assume "x \<in> offsets_of hfn \<union> offsets_of lfn"
    with og have "on_grid x" by blast
    from on_grid_less_half [OF t this] show "(x < t + 1/2) = (x < t \<or> x = t)" by fastforce
  qed
  have "set (map row_offset (rows s1)) = {x \<in> offsets_of hfn \<union> offsets_of lfn. x < t} \<union>
          (if t \<in> offsets_of hfn \<union> offsets_of lfn then {t} else {})"
    using r(3) rs lu hu by (simp only: set_append) auto
  also have "\<dots> = {x \<in> offsets_of hfn \<union> offsets_of lfn. x < t + 1/2}"
    using half by auto
  finally show ?thesis
    using r l1 h1 t by (simp add: series_inv_def on_grid_step)
qed

lemma series_inv_loop:
  assumes "grid_series hfn" and "grid_series lfn"
    and "series_inv hfn lfn t s" and "visTheseParts_loop hfn lfn highest t s = Inr s'"
  shows "\<exists>t'. series_inv hfn lfn t' s' \<and> highest < t'"
  using assms
proof (induction hfn lfn highest t s rule: visTheseParts_loop.induct)
  case (1 hfn lfn highest t s)
  show ?case
  proof (cases "t \<le> highest")
    case False
    with "1.prems" show ?thesis by (subst (asm) visTheseParts_loop.simps) auto
  next
    case True
    with "1.prems"(4) obtain s1 where b: "visTheseParts_body hfn lfn t s = Inr s1"
      and l: "visTheseParts_loop hfn lfn highest (t + 1/2) s1 = Inr s'"
      by (subst (asm) visTheseParts_loop.simps) (auto split: sum.splits)
    from series_inv_body [OF "1.prems"(1,2,3) b]
    have "series_inv hfn lfn (t + 1/2) s1" .
    from "1.IH" [OF True b "1.prems"(1,2) this l] show ?thesis .
  qed
qed

lemma highestOffset_ge: "e \<in> set xs \<Longrightarrow> offset e \<le> highestOffset xs"
  by (induction xs rule: highestOffset.induct) (auto simp: le_max_iff_disj)

section \<open>Properties of vis\_these\_parts\<close>

lemma collect_moments_Some:
  "collect_moments ms acc = Some g \<Longrightarrow> g = acc @ ms \<and> RestMoment \<notin> set ms"
proof (induction ms arbitrary: acc)
  case Nil
  then show ?case by simp
next
  case (Cons m ms)
  from Cons.prems have m: "m \<noteq> RestMoment" and c: "collect_moments ms (acc @ [m]) = Some g"
    by (auto split: if_splits)
  from Cons.IH [OF c] m show ?case by auto
qed

lemma sublist_extend: "sublist g xs \<Longrightarrow> sublist g (xs @ ys)"
proof -
  assume "sublist g xs"
  then obtain ps ss where "xs = ps @ g @ ss" by (auto simp: sublist_def)
  then have "xs @ ys = ps @ g @ (ss @ ys)" by simp
  then show ?thesis unfolding sublist_def by blast
qed

lemma ngram_for_Some:
  assumes "ngram_for history k = Some g"
  shows "RestMoment \<notin> set g \<and> suffix g history"
proof -
  from assms have "collect_moments (if k \<le> 0 then [] else drop (length history - nat k) history) [] = Some g"
    by (auto simp: ngram_for_def split: if_splits)
  from collect_moments_Some [OF this] show ?thesis
    by (auto simp: suffix_drop split: if_splits)
qed

lemma add_ngrams_set:
  "g \<in> set (add_ngrams history ks added) \<Longrightarrow>
     g \<in> set added \<or> (RestMoment \<notin> set g \<and> suffix g history)"
proof (induction ks arbitrary: added)
  case Nil
  then show ?case by simp
next
  case (Cons k ks)
  then show ?case
    by (fastforce split: option.splits dest: ngram_for_Some)
qed

lemma successively_snoc:
  "successively P (xs @ [x]) \<longleftrightarrow> successively P xs \<and> (xs = [] \<or> P (last xs) x)"
  by (auto simp: successively_append_iff)

lemma record_moment_inv:
  assumes "engine_inv st"
  shows "engine_inv (record_moment ks lo hi st)"
proof (cases "is_rest hi \<or> is_rest lo")
  case True
  then have h: "interval_history (record_moment ks lo hi st) = interval_history st @ [RestMoment]"
    and g: "added_ngrams (record_moment ks lo hi st) = added_ngrams st"
    by (auto simp: record_moment_def)
  have "successively (\<lambda>a b. \<not> same_combination a b) (interval_history st @ [RestMoment])"
    using assms by (auto simp: engine_inv_def successively_snoc same_combination_def split: moment.splits)
  moreover have "\<forall>g \<in> set (added_ngrams st). RestMoment \<notin> set g \<and> sublist g (interval_history st @ [RestMoment])"
    using assms by (auto simp: engine_inv_def intro: sublist_extend)
  ultimately show ?thesis unfolding engine_inv_def h g by blast
next
  case False
  define this_interval where "this_interval = \<lparr>noteStart = lo, noteEnd = hi, interval_offset = max (offset lo) (offset hi)\<rparr>"
  define dup where "dup = repeats_last (interval_history st) this_interval"
  show ?thesis
  proof (cases dup)
    case True
    with False have "record_moment ks lo hi st = st"
      by (simp add: record_moment_def Let_def dup_def this_interval_def)
    with assms show ?thesis by simp
  next
    case nd: False
    define history where "history = interval_history st @ [IntervalMoment this_interval]"
    from False nd have h: "interval_history (record_moment ks lo hi st) = history"
      and g: "added_ngrams (record_moment ks lo hi st) = add_ngrams history ks (added_ngrams st)"
      by (auto simp: record_moment_def Let_def dup_def this_interval_def history_def)
    have nosame: "interval_history st \<noteq> [] \<Longrightarrow>
        \<not> same_combination (last (interval_history st)) (IntervalMoment this_interval)"
      using nd by (auto simp: dup_def repeats_last_def same_combination_def interval_eq_def split: moment.splits)
    have s: "successively (\<lambda>a b. \<not> same_combination a b) history"
      using assms nosame by (auto simp: engine_inv_def history_def successively_snoc)
    have n: "\<forall>g \<in> set (add_ngrams history ks (added_ngrams st)). RestMoment \<notin> set g \<and> sublist g history"
    proof
      fix g assume "g \<in> set (add_ngrams history ks (added_ngrams st))"
      from add_ngrams_set [OF this] show "RestMoment \<notin> set g \<and> sublist g history"
      proof
        assume "g \<in> set (added_ngrams st)"
        with assms show ?thesis by (auto simp: engine_inv_def history_def intro: sublist_extend)
      next
        assume "RestMoment \<notin> set g \<and> suffix g history"
        then show ?thesis by (auto intro: suffix_imp_sublist)
      qed
    qed
    show ?thesis unfolding engine_inv_def h g using s n by blast
  qed
qed

lemma process_moment_inv:
  assumes "engine_inv st" and "process_moment lp hp oi ks l h st = Some (Inr st')"
  shows "engine_inv st'"
  using assms
  by (auto simp: process_moment_def record_moment_inv split: sum.splits option.splits if_splits)

lemma vis_these_parts_loop_inv:
  assumes "engine_inv st" and "vis_these_parts_loop lp hp oi ks l h st = Some (Inr st')"
  shows "engine_inv st'"
  using assms
proof (induction lp hp oi ks l h st rule: vis_these_parts_loop.induct)
  case (1 lp hp oi ks l h st)
  show ?case
  proof (cases "l < int (length lp) \<or> h < int (length hp)")
    case False
    with "1.prems" show ?thesis by (subst (asm) vis_these_parts_loop.simps) auto
  next
    case True
    with "1.prems"(2) obtain l2 h2 st1 where a: "adjust_indices lp hp l h = Inr (l2, h2)"
      and p: "process_moment lp hp oi ks l2 h2 st = Some (Inr st1)"
      and r: "vis_these_parts_loop lp hp oi ks (l2 + 1) (h2 + 1) st1 = Some (Inr st')"
      by (subst (asm) vis_these_parts_loop.simps) (auto split: sum.splits option.splits prod.splits)
    from process_moment_inv [OF "1.prems"(1) p] have "engine_inv st1" .
    from "1.IH" [OF True a refl p refl this r] show ?thesis .
  qed
qed

lemma count_up_returns:
  assumes "0 < oi"
  shows "nat \<lceil>(g - p) / oi\<rceil> \<le> k \<Longrightarrow> \<exists>r. count_up p oi g = Some r"
proof (induction k arbitrary: p)
  case 0
  then have "(g - p) / oi \<le> 0" by simp
  with assms have "g \<le> p" by (simp add: divide_le_0_iff)
  then show ?case by (subst count_up.simps) auto
next
  case (Suc k)
  show ?case
  proof (cases "p < g")
    case False
    then show ?thesis by (subst count_up.simps) auto
  next
    case True
    have "(g - (p + oi)) / oi = (g - p) / oi - 1"
      using assms by (simp add: field_simps)
    then have "\<lceil>(g - (p + oi)) / oi\<rceil> = \<lceil>(g - p) / oi\<rceil> - 1" by simp
    with Suc.prems have "nat \<lceil>(g - (p + oi)) / oi\<rceil> \<le> k" by simp
    from Suc.IH [OF this] True show ?thesis by (subst count_up.simps) auto
  qed
qed

lemma count_up_not_None: "0 < oi \<Longrightarrow> count_up p oi g \<noteq> None"
  using count_up_returns [of oi g p "nat \<lceil>(g - p) / oi\<rceil>"] by auto

lemma process_moment_returns: "0 < oi \<Longrightarrow> process_moment lp hp oi ks l h st \<noteq> None"
  by (auto simp: process_moment_def count_up_not_None split: sum.splits option.splits)

lemma vis_these_parts_loop_returns:
  "0 < oi \<Longrightarrow> vis_these_parts_loop lp hp oi ks l h st \<noteq> None"
proof (induction lp hp oi ks l h st rule: vis_these_parts_loop.induct)
  case (1 lp hp oi ks l h st)
  show ?case
  proof (cases "l < int (length lp) \<or> h < int (length hp)")
    case False
    then show ?thesis by (subst vis_these_parts_loop.simps) auto
  next
    case c: True
    show ?thesis
    proof (cases "adjust_indices lp hp l h")
      case (Inl e)
      with c show ?thesis by (subst vis_these_parts_loop.simps) auto
    next
      case (Inr lh)
      obtain l2 h2 where lh: "lh = (l2, h2)" by (cases lh) auto
      from process_moment_returns [OF "1.prems"] obtain r where
        p: "process_moment lp hp oi ks l2 h2 st = Some r" by blast
      show ?thesis
      proof (cases r)
        case (Inl e)
        with c Inr lh p show ?thesis by (subst vis_these_parts_loop.simps) auto
      next
        case r: (Inr st1)
        from "1.IH" [OF c Inr [unfolded lh] refl p [unfolded r] refl "1.prems"]
        have "vis_these_parts_loop lp hp oi ks (l2 + 1) (h2 + 1) st1 \<noteq> None" .
        with c Inr lh p r show ?thesis by (subst vis_these_parts_loop.simps) auto
      qed
    qed
  qed
qed

section \<open>The rows of visTheseParts\<close>

lemma rows_inv_init:
  "rows_inv hfn lfn 0 \<lparr>mostRecentHigh = None, mostRecentLow = None, previousHighs = [],
     previousLows = [], rows = [], ngrams = []\<rparr>"
  by (simp add: rows_inv_def on_grid_def)

lemma series_inv_init:
  assumes "grid_series hfn" "grid_series lfn"
  shows "series_inv hfn lfn 0 \<lparr>mostRecentHigh = None, mostRecentLow = None, previousHighs = [],
     previousLows = [], rows = [], ngrams = []\<rparr>"
proof -
  have "\<forall>e \<in> set hfn. \<not> offset e < 0" "\<forall>e \<in> set lfn. \<not> offset e < 0"
    using assms by (auto simp: grid_series_def list_all_iff on_grid_def not_less)
  then have "filter (\<lambda>e. offset e < 0) hfn = []" "filter (\<lambda>e. offset e < 0) lfn = []"
    "{x \<in> offsets_of hfn \<union> offsets_of lfn. x < 0} = {}"
    by (auto simp: filter_empty_conv offsets_of_def)
  then show ?thesis
    by (simp add: series_inv_def on_grid_def last_before_eq)
qed

text \<open>
  Claim C1, as amended. The aligner \<open>visTheseParts\<close> visits the offsets 0, 0.5, 1, ... up
  to the highest offset of the two voices, and no others. When it returns, its rows are
  in increasing order of offset, and every row lies at a non-negative multiple of 0.5
  at which some voice has a note: no offset outside the union of the voices' offsets
  yields a row. When both voices are time series on these offsets (strictly increasing
  offsets that are non-negative multiples of 0.5, no two consecutive notes of the same
  pitch), the rows are at exactly the offsets of the union.
\<close>

theorem visTheseParts_rows_on_grid:
  assumes "visTheseParts hfn lfn = Inr s"
  shows "sorted_wrt (<) (map row_offset (rows s)) \<and>
         (\<forall>r \<in> set (rows s). on_grid (row_offset r) \<and>
                            row_offset r \<in> offsets_of hfn \<union> offsets_of lfn) \<and>
         (grid_series hfn \<and> grid_series lfn \<longrightarrow>
            set (map row_offset (rows s)) = offsets_of hfn \<union> offsets_of lfn)"
proof -
  from rows_inv_loop [OF rows_inv_init assms [unfolded visTheseParts_def]]
  obtain t' where "rows_inv hfn lfn t' s" by blast
  then have a: "sorted_wrt (<) (map row_offset (rows s))"
    and b: "\<forall>r \<in> set (rows s). on_grid (row_offset r) \<and>
                            row_offset r \<in> offsets_of hfn \<union> offsets_of lfn"
    by (auto simp: rows_inv_def)
  have c: "set (map row_offset (rows s)) = offsets_of hfn \<union> offsets_of lfn"
    if g: "grid_series hfn \<and> grid_series lfn"
  proof -
    from g have gh: "grid_series hfn" and gl: "grid_series lfn" by auto
    from series_inv_loop [OF gh gl series_inv_init [OF gh gl] assms [unfolded visTheseParts_def]]
    obtain t' where inv: "series_inv hfn lfn t' s"
      and hi: "max (highestOffset hfn) (highestOffset lfn) < t'" by blast
    have "\<forall>x \<in> offsets_of hfn \<union> offsets_of lfn. x < t'"
      using hi highestOffset_ge [of _ hfn] highestOffset_ge [of _ lfn]
      by (fastforce simp: offsets_of_def)
    with inv show ?thesis by (auto simp: series_inv_def)
  qed
  from a b c show ?thesis by blast
qed

theorem visTheseParts_rows_on_grid_witness:
  "grid_series [note_at 0 36 72, note_at (1/2) 37 74, note_at 1 36 72] \<and>
   grid_series [note_at 0 29 60, note_at 1 30 62] \<and>
   result_rows (visTheseParts [note_at 0 36 72, note_at (1/2) 37 74, note_at 1 36 72]
                              [note_at 0 29 60, note_at 1 30 62])
     = Some [(0, note_at 0 29 60, note_at 0 36 72),
             (1/2, note_at 0 29 60, note_at (1/2) 37 74),
             (1, note_at 1 30 62, note_at 1 36 72)] \<and>
   set (map row_offset [(0, note_at 0 29 60, note_at 0 36 72),
                        (1/2, note_at 0 29 60, note_at (1/2) 37 74),
                        (1, note_at 1 30 62, note_at 1 36 72)])
     = offsets_of [note_at 0 36 72, note_at (1/2) 37 74, note_at 1 36 72]
       \<union> offsets_of [note_at 0 29 60, note_at 1 30 62]"
proof -
  have gh: "grid_series [note_at 0 36 72, note_at (1/2) 37 74, note_at 1 36 72]"
    by (simp add: grid_series_def note_at_def on_grid_def pitch_of_def)
  have gl: "grid_series [note_at 0 29 60, note_at 1 30 62]"
    by (simp add: grid_series_def note_at_def on_grid_def pitch_of_def)
  have r: "result_rows (visTheseParts [note_at 0 36 72, note_at (1/2) 37 74, note_at 1 36 72]
                              [note_at 0 29 60, note_at 1 30 62])
     = Some [(0, note_at 0 29 60, note_at 0 36 72),
             (1/2, note_at 0 29 60, note_at (1/2) 37 74),
             (1, note_at 1 30 62, note_at 1 36 72)]"
    by code_simp
  then obtain s where s: "visTheseParts [note_at 0 36 72, note_at (1/2) 37 74, note_at 1 36 72]
                              [note_at 0 29 60, note_at 1 30 62] = Inr s"
    and rs: "rows s = [(0, note_at 0 29 60, note_at 0 36 72),
             (1/2, note_at 0 29 60, note_at (1/2) 37 74),
             (1, note_at 1 30 62, note_at 1 36 72)]"
    by (auto simp: result_rows_def split: sum.splits)
  from visTheseParts_rows_on_grid [OF s] gh gl
  have "set (map row_offset (rows s))
     = offsets_of [note_at 0 36 72, note_at (1/2) 37 74, note_at 1 36 72]
       \<union> offsets_of [note_at 0 29 60, note_at 1 30 62]" by blast
  with gh gl r rs show ?thesis by simp
qed

text \<open>
  Claim C1 as stated fails: the higher voice has a note at the offset 1/4, which is in the
  union of the offsets, and the run returns one row only, at the offset 0.
\<close>

theorem visTheseParts_misses_offbeat_note:
  "result_rows (visTheseParts [note_at 0 36 72, note_at (1/4) 37 74] [note_at 0 29 60])
     = Some [(0, note_at 0 29 60, note_at 0 36 72)] \<and>
   1/4 \<in> offsets_of [note_at 0 36 72, note_at (1/4) 37 74] \<union> offsets_of [note_at 0 29 60] \<and>
   1/4 \<notin> set (map row_offset [(0, note_at 0 29 60, note_at 0 36 72)])"
  by code_simp

section \<open>Repeated combinations in the two legacy aligners\<close>

text \<open>With a positive offset interval every run of \<open>vis_these_parts\<close> returns.\<close>

lemma vis_these_parts_returns:
  "0 < offset_interval \<Longrightarrow>
     vis_these_parts higher_part lower_part offset_interval find_these_ns \<noteq> None"
  unfolding vis_these_parts_def by (rule vis_these_parts_loop_returns)

text \<open>
  Claim C3, as amended. The legacy aligners suppress a combination that repeats the
  notes of the one before it, not one that repeats its vertical token only. In
  \<open>vis_these_parts\<close> an interval is not recorded when it equals the last moment of the
  history and starts on a lower note of the same name, so no two moments next to each
  other in the history are intervals of the same size on the same lower note. In
  \<open>visTheseParts\<close> a note of the pitch of the voice's most recent note is ignored, so
  no two rows next to each other report the same pair of pitches.
\<close>

theorem legacy_aligners_suppress_repeated_notes:
  "(vis_these_parts higher_part lower_part offset_interval find_these_ns = Some (Inr st) \<longrightarrow>
      successively (\<lambda>a b. \<not> same_combination a b) (interval_history st)) \<and>
   (visTheseParts hfn lfn = Inr s \<longrightarrow> distinct_adj (map row_pitches (rows s)))"
proof (intro conjI impI)
  assume "vis_these_parts higher_part lower_part offset_interval find_these_ns = Some (Inr st)"
  then have "engine_inv st"
    unfolding vis_these_parts_def
    by (rule vis_these_parts_loop_inv [rotated]) (simp add: engine_inv_def)
  then show "successively (\<lambda>a b. \<not> same_combination a b) (interval_history st)"
    by (simp add: engine_inv_def)
next
  assume "visTheseParts hfn lfn = Inr s"
  from rows_inv_loop [OF rows_inv_init this [unfolded visTheseParts_def]]
  show "distinct_adj (map row_pitches (rows s))" by (auto simp: rows_inv_def)
qed

theorem legacy_aligners_suppress_repeated_notes_witness:
  "result_history
     (vis_these_parts [note_at 0 31 64, note_at 1 31 64, note_at 2 32 65]
                      [note_at 0 29 60, note_at 1 29 60, note_at 2 29 60] 1 [2])
     = Some [IntervalMoment (interval_between (note_at 0 29 60) (note_at 0 31 64)),
             IntervalMoment (interval_between (note_at 2 29 60) (note_at 2 32 65))] \<and>
   successively (\<lambda>a b. \<not> same_combination a b)
     [IntervalMoment (interval_between (note_at 0 29 60) (note_at 0 31 64)),
      IntervalMoment (interval_between (note_at 2 29 60) (note_at 2 32 65))] \<and>
   result_rows (visTheseParts [note_at 0 36 72, note_at (1/2) 36 72, note_at 1 37 74]
                              [note_at 0 29 60])
     = Some [(0, note_at 0 29 60, note_at 0 36 72), (1, note_at 0 29 60, note_at 1 37 74)] \<and>
   distinct_adj (map row_pitches
     [(0, note_at 0 29 60, note_at 0 36 72), (1, note_at 0 29 60, note_at 1 37 74)])"
proof -
  have e: "result_history
     (vis_these_parts [note_at 0 31 64, note_at 1 31 64, note_at 2 32 65]
                      [note_at 0 29 60, note_at 1 29 60, note_at 2 29 60] 1 [2])
     = Some [IntervalMoment (interval_between (note_at 0 29 60) (note_at 0 31 64)),
             IntervalMoment (interval_between (note_at 2 29 60) (note_at 2 32 65))]"
    by code_simp
  then obtain st where st: "vis_these_parts [note_at 0 31 64, note_at 1 31 64, note_at 2 32 65]
                      [note_at 0 29 60, note_at 1 29 60, note_at 2 29 60] 1 [2] = Some (Inr st)"
    and h: "interval_history st
              = [IntervalMoment (interval_between (note_at 0 29 60) (note_at 0 31 64)),
                 IntervalMoment (interval_between (note_at 2 29 60) (note_at 2 32 65))]"
    by (auto simp: result_history_def split: option.splits sum.splits)
  have r: "result_rows (visTheseParts [note_at 0 36 72, note_at (1/2) 36 72, note_at 1 37 74]
                              [note_at 0 29 60])
     = Some [(0, note_at 0 29 60, note_at 0 36 72), (1, note_at 0 29 60, note_at 1 37 74)]"
    by code_simp
  then obtain s where s: "visTheseParts [note_at 0 36 72, note_at (1/2) 36 72, note_at 1 37 74]
                              [note_at 0 29 60] = Inr s"
    and rs: "rows s = [(0, note_at 0 29 60, note_at 0 36 72), (1, note_at 0 29 60, note_at 1 37 74)]"
    by (auto simp: result_rows_def split: sum.splits)
  from legacy_aligners_suppress_repeated_notes
         [of "[note_at 0 31 64, note_at 1 31 64, note_at 2 32 65]"
             "[note_at 0 29 60, note_at 1 29 60, note_at 2 29 60]" 1 "[2]" st
             "[note_at 0 36 72, note_at (1/2) 36 72, note_at 1 37 74]" "[note_at 0 29 60]" s]
    st s
  have "successively (\<lambda>a b. \<not> same_combination a b) (interval_history st)"
    and "distinct_adj (map row_pitches (rows s))" by blast+
  with e r h rs show ?thesis by simp
qed

text \<open>
  Claim C3 as stated fails: the major third from C4 to E4 is followed by the major third
  from D4 to F sharp 4. The two combinations have the same vertical token (the size 2
  diatonic steps, 4 semitones) and both are emitted, one after the other.
\<close>

theorem vis_these_parts_repeats_vertical_token:
  "result_tokens
     (vis_these_parts [note_at 0 31 64, note_at 1 32 66] [note_at 0 29 60, note_at 1 30 62] (1/2) [2])
   = Some [Some (2, 4), Some (2, 4)]"
  by code_simp

section \<open>Properties of the n-gram indexer\<close>

text \<open>
  Claim C6. Constructing the n-gram indexer with a window size below 1, or with no
  vertical grouping configured, raises a \<open>RuntimeError\<close>; the error is raised by the
  constructor, so the analysis returns it and no result: no scan has begun.
\<close>

theorem NewNGramIndexer_init_rejects:
  assumes "setting_vertical setts = None \<or> setting_vertical setts = Some []
           \<or> (\<exists>k. setting_n setts = Some k \<and> k < 1)"
  shows "\<exists>msg. NewNGramIndexer_init score setts = Inl (RuntimeError msg) \<and>
               new_ngram_index score setts = Inl (RuntimeError msg)"
proof -
  have "\<exists>msg. NewNGramIndexer_init score setts = Inl (RuntimeError msg)"
    using assms
    by (auto simp: NewNGramIndexer_init_def Let_def split: option.splits)
  then show ?thesis by (auto simp: new_ngram_index_def)
qed

theorem NewNGramIndexer_init_rejects_witness:
  "NewNGramIndexer_init [(''0,1'', stream_of [''A'', ''B''])]
      \<lparr>setting_n = Some 0, setting_vertical = Some [''0,1''], setting_horizontal = None,
       setting_terminator = None, setting_continuer = None\<rparr>
     = Inl (RuntimeError N_VALUE_TOO_LOW) \<and>
   new_ngram_index [(''0,1'', stream_of [''A'', ''B''])]
      \<lparr>setting_n = Some 0, setting_vertical = Some [''0,1''], setting_horizontal = None,
       setting_terminator = None, setting_continuer = None\<rparr>
     = Inl (RuntimeError N_VALUE_TOO_LOW) \<and>
   NewNGramIndexer_init [(''0,1'', stream_of [''A'', ''B''])]
      \<lparr>setting_n = Some 14, setting_vertical = None, setting_horizontal = Some [''0''],
       setting_terminator = None, setting_continuer = None\<rparr>
     = Inl (RuntimeError MISSING_SETTINGS)"
proof -
  have h1: "setting_vertical \<lparr>setting_n = Some 0, setting_vertical = Some [''0,1''], setting_horizontal = None,
       setting_terminator = None, setting_continuer = None\<rparr> = None \<or> 
     setting_vertical \<lparr>setting_n = Some 0, setting_vertical = Some [''0,1''], setting_horizontal = None,
       setting_terminator = None, setting_continuer = None\<rparr> = Some [] \<or> 
     (\<exists>k. setting_n \<lparr>setting_n = Some 0, setting_vertical = Some [''0,1''], setting_horizontal = None,
       setting_terminator = None, setting_continuer = None\<rparr> = Some k \<and> k < 1)"
    by simp
  have h2: "setting_vertical \<lparr>setting_n = Some 14, setting_vertical = None, setting_horizontal = Some [''0''],
       setting_terminator = None, setting_continuer = None\<rparr> = None \<or>
     setting_vertical \<lparr>setting_n = Some 14, setting_vertical = None, setting_horizontal = Some [''0''],
       setting_terminator = None, setting_continuer = None\<rparr> = Some [] \<or>
     (\<exists>k. setting_n \<lparr>setting_n = Some 14, setting_vertical = None, setting_horizontal = Some [''0''],
       setting_terminator = None, setting_continuer = None\<rparr> = Some k \<and> k < 1)"
    by simp
  show ?thesis
    using NewNGramIndexer_init_rejects [OF h1, of "[(''0,1'', stream_of [''A'', ''B''])]"]
      NewNGramIndexer_init_rejects [OF h2, of "[(''0,1'', stream_of [''A'', ''B''])]"]
    by (auto simp: NewNGramIndexer_init_def new_ngram_index_def)
qed


















end
